theory Spec2Isabelle
  imports Complex_Main
begin

section \<open>Python values and exceptions\<close>

text \<open>
  The notebook is Python. Its floats are read as real numbers (rounding, overflow,
  underflow and NaN are not part of this development), its exceptions are values: a computation
  returns \<open>Inl e\<close> where the Python raises \<open>e\<close> and \<open>Inr v\<close> where it returns \<open>v\<close>.
\<close>

datatype py_error =
  KeyError | TypeError | ValueError | IndexError | OverflowError | FloatingPointError

section \<open>Calendar dates (datetime.date)\<close>

text \<open>
  A \<open>datetime.date\<close> is a triple of year, month and day in the proleptic Gregorian
  calendar, with years 1 to 9999. Dates compare as these triples do, and their
  difference in days is the difference of their ordinals.
\<close>

datatype date = Date (year: int) (month: int) (day: int)

definition is_leap :: "int \<Rightarrow> bool" where
  "is_leap y = (y mod 4 = 0 \<and> (y mod 100 \<noteq> 0 \<or> y mod 400 = 0))"

definition days_in_month :: "int \<Rightarrow> int \<Rightarrow> int" where
  "days_in_month y m =
     (if m = 2 then (if is_leap y then 29 else 28)
      else if m = 4 \<or> m = 6 \<or> m = 9 \<or> m = 11 then 30 else 31)"

definition days_in_year :: "int \<Rightarrow> int" where
  "days_in_year y = (if is_leap y then 366 else 365)"

definition days_before_year :: "int \<Rightarrow> int" where
  "days_before_year y = (y - 1) * 365 + (y - 1) div 4 - (y - 1) div 100 + (y - 1) div 400"

definition days_before_month :: "int \<Rightarrow> int \<Rightarrow> int" where
  "days_before_month y m =
     (if m = 1 then 0 else if m = 2 then 31 else if m = 3 then 59 else if m = 4 then 90
      else if m = 5 then 120 else if m = 6 then 151 else if m = 7 then 181
      else if m = 8 then 212 else if m = 9 then 243 else if m = 10 then 273
      else if m = 11 then 304 else 334)
     + (if m > 2 \<and> is_leap y then 1 else 0)"

definition MAXYEAR :: int where
  "MAXYEAR = 9999"

definition MAXORDINAL :: int where
  "MAXORDINAL = 3652059"

definition valid_date :: "date \<Rightarrow> bool" where
  "valid_date d = (1 \<le> year d \<and> year d \<le> MAXYEAR \<and> 1 \<le> month d \<and> month d \<le> 12
     \<and> 1 \<le> day d \<and> day d \<le> days_in_month (year d) (month d))"

text \<open>The constructor \<open>date(y, m, d)\<close> raises ValueError outside the calendar.\<close>

definition mk_date :: "int \<Rightarrow> int \<Rightarrow> int \<Rightarrow> py_error + date" where
  "mk_date y m d = (if valid_date (Date y m d) then Inr (Date y m d) else Inl ValueError)"

definition toordinal :: "date \<Rightarrow> int" where
  "toordinal d = days_before_year (year d) + days_before_month (year d) (month d) + day d"

instantiation date :: linorder
begin

definition less_date :: "date \<Rightarrow> date \<Rightarrow> bool" where
  "less_date a b = (year a < year b \<or> (year a = year b \<and>
     (month a < month b \<or> (month a = month b \<and> day a < day b))))"

definition less_eq_date :: "date \<Rightarrow> date \<Rightarrow> bool" where
  "less_eq_date a b = (year a < year b \<or> (year a = year b \<and>
     (month a < month b \<or> (month a = month b \<and> day a \<le> day b))))"

instance
  by standard (auto simp: less_date_def less_eq_date_def date.expand)

end

text \<open>
  \<open>date.fromordinal\<close>: the date with a given ordinal. The year is found from the
  400-year cycle the ordinal lies in, by stepping over whole years, the month by
  stepping over whole months.
\<close>

function year_scan :: "int \<Rightarrow> int \<Rightarrow> int \<times> int" where
  "year_scan y n =
     (if days_in_year y < n then year_scan (y + 1) (n - days_in_year y) else (y, n))"
  by pat_completeness auto
termination
  by (relation "measure (\<lambda>(y, n). nat n)") (auto simp: days_in_year_def split: if_splits)

function month_scan :: "int \<Rightarrow> int \<Rightarrow> int \<Rightarrow> int \<times> int" where
  "month_scan y m n =
     (if m < 12 \<and> days_in_month y m < n then month_scan y (m + 1) (n - days_in_month y m)
      else (m, n))"
  by pat_completeness auto
termination
  by (relation "measure (\<lambda>(y, m, n). nat (12 - m))") auto

definition fromordinal :: "int \<Rightarrow> date" where
  "fromordinal n =
     (let q = (n - 1) div 146097;
          (y, r) = year_scan (400 * q + 1) ((n - 1) mod 146097 + 1);
          (m, d) = month_scan y 1 r
      in Date y m d)"

text \<open>\<open>a - b\<close> on dates, read through \<open>.days\<close>.\<close>

definition days_between :: "date \<Rightarrow> date \<Rightarrow> int" where
  "days_between a b = toordinal a - toordinal b"

text \<open>\<open>d + relativedelta(days=n)\<close>: OverflowError outside the calendar.\<close>

definition add_days :: "date \<Rightarrow> int \<Rightarrow> py_error + date" where
  "add_days d n =
     (let ord = toordinal d + n
      in if 1 \<le> ord \<and> ord \<le> MAXORDINAL then Inr (fromordinal ord) else Inl OverflowError)"

text \<open>
  \<open>d + relativedelta(months=1)\<close>: the same day of the next month, cut down to the
  length of that month; ValueError when the year leaves the calendar.
\<close>

definition add_month :: "date \<Rightarrow> py_error + date" where
  "add_month d =
     (let m1 = month d + 1;
          y = (if m1 > 12 then year d + 1 else year d);
          m = (if m1 > 12 then m1 - 12 else m1)
      in mk_date y m (min (days_in_month y m) (day d)))"

text \<open>\<open>d.weekday()\<close>: Monday is 0, Sunday is 6.\<close>

definition weekday :: "date \<Rightarrow> int" where
  "weekday d = (toordinal d + 6) mod 7"

subsection \<open>Ordinals and the calendar order\<close>

lemma month_cases:
  "1 \<le> m \<Longrightarrow> m \<le> 12 \<Longrightarrow>
   m = 1 \<or> m = 2 \<or> m = 3 \<or> m = 4 \<or> m = 5 \<or> m = 6 \<or> m = 7 \<or> m = 8 \<or> m = 9 \<or> m = 10 \<or> m = 11 \<or> m = (12::int)"
  by arith

lemma days_before_month_Suc:
  "1 \<le> m \<Longrightarrow> m < 12 \<Longrightarrow> days_before_month y (m + 1) = days_before_month y m + days_in_month y m"
  using month_cases [of m] by (auto simp: days_before_month_def days_in_month_def)

lemma days_before_month_12:
  "days_before_month y 12 + days_in_month y 12 = days_in_year y"
  by (simp add: days_before_month_def days_in_month_def days_in_year_def)

lemma days_in_month_bounds: "28 \<le> days_in_month y m" "days_in_month y m \<le> 31"
  by (auto simp: days_in_month_def)

lemma div_step:
  assumes k: "0 < (k::int)"
  shows "y div k = (y - 1) div k + (if y mod k = 0 then 1 else 0)"
proof (cases "y mod k = 0")
  case True
  have "y = k * (y div k) + y mod k" by simp
  with True have "y - 1 = k * (y div k - 1) + (k - 1)" by (simp add: algebra_simps)
  then have "(y - 1) div k = y div k - 1"
    using k int_div_pos_eq [of "y - 1" k "y div k - 1" "k - 1"] by simp
  with True show ?thesis by simp
next
  case False
  have "y = k * (y div k) + y mod k" by simp
  then have "y - 1 = k * (y div k) + (y mod k - 1)" by simp
  moreover have "0 \<le> y mod k - 1" "y mod k - 1 < k"
    using False pos_mod_bound [OF k, of y] pos_mod_sign [OF k, of y] by linarith+
  ultimately have "(y - 1) div k = y div k"
    using int_div_pos_eq [of "y - 1" k "y div k" "y mod k - 1"] by simp
  with False show ?thesis by simp
qed

lemma mod_4_100: "(y::int) mod 100 = 0 \<Longrightarrow> y mod 4 = 0"
proof -
  assume "y mod 100 = 0"
  then have "100 dvd y" by (simp add: mod_eq_0_iff_dvd)
  moreover have "(4::int) dvd 100" by simp
  ultimately have "4 dvd y" by (rule dvd_trans [rotated])
  then show ?thesis by (simp add: mod_eq_0_iff_dvd)
qed

lemma mod_100_400: "(y::int) mod 400 = 0 \<Longrightarrow> y mod 100 = 0"
proof -
  assume "y mod 400 = 0"
  then have "400 dvd y" by (simp add: mod_eq_0_iff_dvd)
  moreover have "(100::int) dvd 400" by simp
  ultimately have "100 dvd y" by (rule dvd_trans [rotated])
  then show ?thesis by (simp add: mod_eq_0_iff_dvd)
qed

lemma days_before_year_Suc: "days_before_year (y + 1) = days_before_year y + days_in_year y"
proof -
  have a: "y div 4 = (y - 1) div 4 + (if y mod 4 = 0 then 1 else 0)" by (rule div_step) simp
  have b: "y div 100 = (y - 1) div 100 + (if y mod 100 = 0 then 1 else 0)" by (rule div_step) simp
  have c: "y div 400 = (y - 1) div 400 + (if y mod 400 = 0 then 1 else 0)" by (rule div_step) simp
  have "days_before_year (y + 1) = y * 365 + y div 4 - y div 100 + y div 400"
    by (simp add: days_before_year_def)
  also have "\<dots> = days_before_year y + days_in_year y"
    unfolding days_before_year_def days_in_year_def is_leap_def a b c
    using mod_4_100 [of y] mod_100_400 [of y]
    by (cases "y mod 4 = 0"; cases "y mod 100 = 0"; cases "y mod 400 = 0") (simp_all add: algebra_simps)
  finally show ?thesis .
qed

lemma days_before_year_cycle: "days_before_year (400 * q + 1) = 146097 * q"
proof -
  have a: "(400 * q) div 4 = 100 * q" by simp
  have b: "(400 * q) div 100 = 4 * q" by simp
  have c: "(400 * q) div 400 = q" by simp
  show ?thesis unfolding days_before_year_def by (simp add: a b c)
qed

lemma year_scan_sound:
  "year_scan y n = (y', r) \<Longrightarrow> 1 \<le> n \<Longrightarrow>
     days_before_year y' + r = days_before_year y + n \<and> 1 \<le> r \<and> r \<le> days_in_year y' \<and> y \<le> y'"
proof (induction y n rule: year_scan.induct)
  case (1 y n)
  show ?case
  proof (cases "days_in_year y < n")
    case True
    with "1.prems" have eq: "year_scan (y + 1) (n - days_in_year y) = (y', r)" by simp
    have "1 \<le> n - days_in_year y" using True by simp
    from "1.IH" [OF True eq this] show ?thesis
      by (simp add: days_before_year_Suc)
  next
    case False
    with "1.prems" show ?thesis by simp
  qed
qed

lemma days_before_year_mono: "a \<le> b \<Longrightarrow> days_before_year a \<le> days_before_year b"
proof (induction "nat (b - a)" arbitrary: b)
  case 0
  then show ?case by simp
next
  case (Suc k)
  then have "k = nat ((b - 1) - a)" "a \<le> b - 1" by auto
  then have "days_before_year a \<le> days_before_year (b - 1)" by (rule Suc.hyps(1))
  moreover have "days_before_year b = days_before_year (b - 1) + days_in_year (b - 1)"
    using days_before_year_Suc [of "b - 1"] by simp
  ultimately show ?case by (simp add: days_in_year_def split: if_splits)
qed

lemma days_before_year_less: "a < b \<Longrightarrow> days_before_year a + days_in_year a \<le> days_before_year b"
  using days_before_year_mono [of "a + 1" b] by (simp add: days_before_year_Suc)

lemma year_scan_bound:
  assumes "year_scan y n = (y', r)" "1 \<le> n" "days_before_year y + n \<le> days_before_year z"
  shows "y' < z"
proof (rule ccontr)
  assume "\<not> y' < z"
  then have "days_before_year z \<le> days_before_year y'" by (simp add: days_before_year_mono)
  with year_scan_sound [OF assms(1,2)] assms(3) show False by linarith
qed

lemma month_scan_sound:
  "month_scan y m n = (m', d) \<Longrightarrow> 1 \<le> m \<Longrightarrow> m \<le> 12 \<Longrightarrow> 1 \<le> n \<Longrightarrow>
     days_before_month y m + n \<le> days_in_year y \<Longrightarrow>
     days_before_month y m' + d = days_before_month y m + n \<and> 1 \<le> d \<and> d \<le> days_in_month y m'
       \<and> m \<le> m' \<and> m' \<le> 12"
proof (induction y m n rule: month_scan.induct)
  case (1 y m n)
  show ?case
  proof (cases "m < 12 \<and> days_in_month y m < n")
    case True
    with "1.prems" have eq: "month_scan y (m + 1) (n - days_in_month y m) = (m', d)" by simp
    have "days_before_month y (m + 1) + (n - days_in_month y m) \<le> days_in_year y"
      using True "1.prems" by (simp add: days_before_month_Suc)
    from "1.IH" [OF True eq _ _ _ this] True "1.prems" show ?thesis
      by (simp add: days_before_month_Suc)
  next
    case False
    then have "m = 12 \<or> n \<le> days_in_month y m" using "1.prems" by auto
    then show ?thesis
    proof
      assume "m = 12"
      with "1.prems" False days_before_month_12 [of y] show ?thesis by simp
    next
      assume "n \<le> days_in_month y m"
      with "1.prems" False show ?thesis by simp
    qed
  qed
qed


lemma days_before_month_bounds:
  "1 \<le> m \<Longrightarrow> m \<le> 12 \<Longrightarrow> 0 \<le> days_before_month y m \<and> days_before_month y m + days_in_month y m \<le> days_in_year y"
  using month_cases [of m] by (auto simp: days_before_month_def days_in_month_def days_in_year_def)

lemma days_before_month_mono:
  "1 \<le> a \<Longrightarrow> a \<le> b \<Longrightarrow> b \<le> 12 \<Longrightarrow> days_before_month y a \<le> days_before_month y b"
proof (induction "nat (b - a)" arbitrary: b)
  case 0
  then show ?case by simp
next
  case (Suc k)
  then have "k = nat ((b - 1) - a)" "a \<le> b - 1" "b - 1 \<le> 12" by auto
  with Suc.prems(1) have "days_before_month y a \<le> days_before_month y (b - 1)"
    by (intro Suc.hyps(1)) auto
  moreover have "days_before_month y b = days_before_month y (b - 1) + days_in_month y (b - 1)"
    using days_before_month_Suc [of "b - 1" y] Suc.prems \<open>a \<le> b - 1\<close> by simp
  ultimately show ?case using days_in_month_bounds(1) [of y "b - 1"] by simp
qed

lemma days_before_month_less:
  "1 \<le> m \<Longrightarrow> m < m' \<Longrightarrow> m' \<le> 12 \<Longrightarrow> days_before_month y m + days_in_month y m \<le> days_before_month y m'"
  using days_before_month_mono [of "m + 1" m' y] by (simp add: days_before_month_Suc)

lemma days_before_year_10000: "days_before_year 10000 = MAXORDINAL"
  by (simp add: days_before_year_def MAXORDINAL_def)

lemma days_before_year_1: "days_before_year 1 = 0"
  by (simp add: days_before_year_def)

lemma fromordinal_sound:
  assumes "1 \<le> n" "n \<le> MAXORDINAL"
  shows "valid_date (fromordinal n) \<and> toordinal (fromordinal n) = n"
proof -
  define q where "q = (n - 1) div 146097"
  define r0 where "r0 = (n - 1) mod 146097 + 1"
  obtain y r where ys: "year_scan (400 * q + 1) r0 = (y, r)" by (cases "year_scan (400 * q + 1) r0")
  obtain m d where ms: "month_scan y 1 r = (m, d)" by (cases "month_scan y 1 r")
  have fo: "fromordinal n = Date y m d"
    using ys ms by (simp add: fromordinal_def q_def r0_def)
  have q0: "0 \<le> q" using assms(1) by (simp add: q_def pos_imp_zdiv_nonneg_iff)
  have r0: "1 \<le> r0" by (simp add: r0_def)
  have n: "146097 * q + r0 = n" unfolding q_def r0_def by simp
  from year_scan_sound [OF ys r0]
  have y: "days_before_year y + r = n" "1 \<le> r" "r \<le> days_in_year y" "400 * q + 1 \<le> y"
    using n by (simp_all add: days_before_year_cycle)
  have "days_before_year (400 * q + 1) + r0 \<le> days_before_year 10000"
    using n assms(2) by (simp add: days_before_year_cycle days_before_year_10000)
  from year_scan_bound [OF ys r0 this] have y2: "y < 10000" .
  have "days_before_month y 1 + r \<le> days_in_year y" using y(3) by (simp add: days_before_month_def)
  from month_scan_sound [OF ms _ _ y(2) this]
  have m: "days_before_month y m + d = r" "1 \<le> d" "d \<le> days_in_month y m" "1 \<le> m" "m \<le> 12"
    by (simp_all add: days_before_month_def)
  show ?thesis
    using y y2 m q0 by (simp add: fo valid_date_def toordinal_def MAXYEAR_def)
qed

lemma toordinal_less:
  assumes "valid_date a" "valid_date b" "a < b"
  shows "toordinal a < toordinal b"
proof -
  from assms(3) consider "year a < year b"
    | "year a = year b" "month a < month b"
    | "year a = year b" "month a = month b" "day a < day b"
    by (auto simp: less_date_def)
  then show ?thesis
  proof cases
    case 1
    have "toordinal a \<le> days_before_year (year a) + days_in_year (year a)"
      using assms(1) days_before_month_bounds [of "month a" "year a"]
      by (simp add: toordinal_def valid_date_def)
    also have "\<dots> \<le> days_before_year (year b)" using 1 by (rule days_before_year_less)
    also have "\<dots> < toordinal b"
      using assms(2) days_before_month_bounds [of "month b" "year b"]
      by (simp add: toordinal_def valid_date_def)
    finally show ?thesis .
  next
    case 2
    then show ?thesis
      using assms(1,2) days_before_month_less [of "month a" "month b" "year a"]
      by (simp add: toordinal_def valid_date_def)
  next
    case 3
    then show ?thesis by (simp add: toordinal_def)
  qed
qed

lemma toordinal_less_iff:
  "valid_date a \<Longrightarrow> valid_date b \<Longrightarrow> toordinal a < toordinal b \<longleftrightarrow> a < b"
  using toordinal_less [of a b] toordinal_less [of b a]
  by (metis less_irrefl less_linear less_trans)

lemma toordinal_le_iff:
  "valid_date a \<Longrightarrow> valid_date b \<Longrightarrow> toordinal a \<le> toordinal b \<longleftrightarrow> a \<le> b"
  using toordinal_less_iff [of b a] by (simp add: not_less [symmetric])

lemma toordinal_inj:
  "valid_date a \<Longrightarrow> valid_date b \<Longrightarrow> toordinal a = toordinal b \<Longrightarrow> a = b"
  using toordinal_less [of a b] toordinal_less [of b a] by (metis less_irrefl less_linear)

lemma toordinal_range:
  assumes "valid_date d"
  shows "1 \<le> toordinal d" "toordinal d \<le> MAXORDINAL"
proof -
  have "days_before_year 1 \<le> days_before_year (year d)"
    using assms by (intro days_before_year_mono) (simp add: valid_date_def)
  then show "1 \<le> toordinal d"
    using assms days_before_month_bounds [of "month d" "year d"]
    by (simp add: toordinal_def valid_date_def days_before_year_1)
  have "year d < 10000" using assms by (simp add: valid_date_def MAXYEAR_def)
  then have "days_before_year (year d) + days_in_year (year d) \<le> days_before_year 10000"
    by (rule days_before_year_less)
  then show "toordinal d \<le> MAXORDINAL"
    using assms days_before_month_bounds [of "month d" "year d"]
    by (simp add: toordinal_def valid_date_def days_before_year_10000)
qed

lemma fromordinal_toordinal: "valid_date d \<Longrightarrow> fromordinal (toordinal d) = d"
  using fromordinal_sound [of "toordinal d"] toordinal_range [of d]
  by (auto intro: toordinal_inj)

lemma add_days_Inr:
  "add_days d n = Inr d' \<Longrightarrow> valid_date d' \<and> toordinal d' = toordinal d + n"
  using fromordinal_sound [of "toordinal d + n"]
  by (auto simp: add_days_def Let_def split: if_splits)

lemma add_days_eq:
  "valid_date d' \<Longrightarrow> toordinal d' = toordinal d + n \<Longrightarrow> add_days d n = Inr d'"
  using toordinal_range [of d'] fromordinal_toordinal [of d']
  by (simp add: add_days_def Let_def)

section \<open>Payment schedule\<close>

text \<open>Indexing a list with a literal index: IndexError past its end.\<close>

definition py_index :: "'a list \<Rightarrow> nat \<Rightarrow> py_error + 'a" where
  "py_index xs i = (if i < length xs then Inr (xs ! i) else Inl IndexError)"

definition weekend_rollover :: "date \<Rightarrow> py_error + date" where
  "weekend_rollover w_date =
     (if weekday w_date = 5 then add_days w_date 2
      else if weekday w_date = 6 then add_days w_date 1
      else Inr w_date)"

text \<open>
  The arm of the if/elif chain of \<open>next_payment_date\<close> that a date takes:
  \<open>Some p\<close> for one of the four arms that build this year's date of the anchor
  \<open>p\<close>, \<open>None\<close> for the final else. An anchor is read from the list only where
  the chain evaluates it.
\<close>

definition anchor_branch :: "date \<Rightarrow> date list \<Rightarrow> py_error + date option" where
  "anchor_branch current_date payment_dates =
     (case py_index payment_dates 0 of Inl e \<Rightarrow> Inl e | Inr p0 \<Rightarrow>
      if month current_date < month p0 then Inr (Some p0)
      else (case py_index payment_dates 1 of Inl e \<Rightarrow> Inl e | Inr p1 \<Rightarrow>
      if month current_date > month p0 \<and> month current_date < month p1 then Inr (Some p1)
      else (case py_index payment_dates 2 of Inl e \<Rightarrow> Inl e | Inr p2 \<Rightarrow>
      if month current_date > month p1 \<and> month current_date < month p2 then Inr (Some p2)
      else if month current_date > month p2
        then (case py_index payment_dates 3 of Inl e \<Rightarrow> Inl e | Inr p3 \<Rightarrow>
              if month current_date < month p3 then Inr (Some p3) else Inr None)
      else Inr None)))"

lemma mk_date_Inr: "mk_date y m d = Inr r \<Longrightarrow> r = Date y m d \<and> valid_date r"
  by (auto simp: mk_date_def split: if_splits)

lemma add_month_Inr:
  assumes "add_month d = Inr d'"
  shows "valid_date d' \<and> 12 * year d' + month d' = 12 * year d + month d + 1 \<and> d < d'"
proof (cases "month d + 1 > 12")
  case True
  with assms have "mk_date (year d + 1) (month d + 1 - 12)
      (min (days_in_month (year d + 1) (month d + 1 - 12)) (day d)) = Inr d'"
    by (simp add: add_month_def Let_def)
  from mk_date_Inr [OF this] show ?thesis by (auto simp: less_date_def)
next
  case False
  with assms have "mk_date (year d) (month d + 1)
      (min (days_in_month (year d) (month d + 1)) (day d)) = Inr d'"
    by (simp add: add_month_def Let_def)
  from mk_date_Inr [OF this] show ?thesis by (auto simp: less_date_def)
qed

function next_payment_date :: "date \<Rightarrow> date list \<Rightarrow> py_error + date" where
  "next_payment_date current_date payment_dates =
     (case anchor_branch current_date payment_dates of
        Inl e \<Rightarrow> Inl e
      | Inr (Some p) \<Rightarrow>
          (case mk_date (year current_date) (month p) (day p) of
             Inl e \<Rightarrow> Inl e
           | Inr payment_date \<Rightarrow> weekend_rollover payment_date)
      | Inr None \<Rightarrow>
          (case py_index payment_dates 0 of Inl e \<Rightarrow> Inl e | Inr p0 \<Rightarrow>
           if day current_date < day p0
           then (case mk_date (year current_date) (month current_date) (day p0) of
                   Inl e \<Rightarrow> Inl e
                 | Inr payment_date \<Rightarrow> weekend_rollover payment_date)
           else (case add_month current_date of
                   Inl e \<Rightarrow> Inl e
                 | Inr next_month \<Rightarrow>
                     (case next_payment_date next_month payment_dates of
                        Inl e \<Rightarrow> Inl e
                      | Inr payment_date \<Rightarrow> weekend_rollover payment_date))))"
  by pat_completeness auto
termination
proof (relation "measure (\<lambda>(d, pds). nat (120000 - (12 * year d + month d)))", goal_cases)
  case 1
  show ?case by simp
next
  case (2 current_date payment_dates x2 p0 next_month)
  then have "add_month current_date = Inr next_month" by simp
  from add_month_Inr [OF this] show ?case
    by (simp add: valid_date_def MAXYEAR_def)
qed

declare next_payment_date.simps [simp del]

lemma weekend_rollover_Inr:
  assumes "weekend_rollover d = Inr r" "valid_date d"
  shows "d \<le> r \<and> valid_date r"
proof -
  from assms(1) have "r = d \<or> add_days d 2 = Inr r \<or> add_days d 1 = Inr r"
    unfolding weekend_rollover_def by (cases "weekday d = 5"; cases "weekday d = 6"; simp)
  then consider "r = d" | "add_days d 2 = Inr r" | "add_days d 1 = Inr r" by blast
  then show ?thesis
  proof cases
    case 1
    with assms(2) show ?thesis by simp
  next
    case 2
    from add_days_Inr [OF this] have "valid_date r" "toordinal d \<le> toordinal r" by simp_all
    with assms(2) toordinal_le_iff [of d r] show ?thesis by blast
  next
    case 3
    from add_days_Inr [OF this] have "valid_date r" "toordinal d \<le> toordinal r" by simp_all
    with assms(2) toordinal_le_iff [of d r] show ?thesis by blast
  qed
qed

lemma anchor_branch_Some:
  "anchor_branch c pds = Inr (Some p) \<Longrightarrow> month c < month p"
  unfolding anchor_branch_def
  by (simp split: sum.splits if_splits)

lemma next_payment_date_later:
  "next_payment_date c pds = Inr r \<Longrightarrow> c < r \<and> valid_date r"
proof (induction c pds arbitrary: r rule: next_payment_date.induct)
  case (1 c pds)
  note eq = "1.prems" [unfolded next_payment_date.simps [of c pds]]
  show ?case
  proof (cases "anchor_branch c pds")
    case (Inl e)
    with eq show ?thesis by simp
  next
    case (Inr br)
    show ?thesis
    proof (cases br)
      case (Some p)
      with Inr eq obtain pd where pd: "mk_date (year c) (month p) (day p) = Inr pd"
        and r: "weekend_rollover pd = Inr r"
        by (auto split: sum.splits)
      from mk_date_Inr [OF pd] anchor_branch_Some [of c pds p] Inr Some
      have "c < pd" "valid_date pd" by (auto simp: less_date_def)
      with weekend_rollover_Inr [OF r] show ?thesis by auto
    next
      case None
      with Inr eq obtain p0 where p0: "py_index pds 0 = Inr p0" by (auto split: sum.splits)
      show ?thesis
      proof (cases "day c < day p0")
        case True
        with None Inr eq p0 obtain pd where pd: "mk_date (year c) (month c) (day p0) = Inr pd"
          and r: "weekend_rollover pd = Inr r"
          by (auto split: sum.splits)
        from mk_date_Inr [OF pd] True have "c < pd" "valid_date pd" by (auto simp: less_date_def)
        with weekend_rollover_Inr [OF r] show ?thesis by auto
      next
        case False
        with None Inr eq p0 obtain nm pd where nm: "add_month c = Inr nm"
          and pd: "next_payment_date nm pds = Inr pd" and r: "weekend_rollover pd = Inr r"
          by (auto split: sum.splits)
        from "1.IH" [OF Inr None p0 False nm pd] have "nm < pd" "valid_date pd" by auto
        with add_month_Inr [OF nm] weekend_rollover_Inr [OF r] show ?thesis by auto
      qed
    qed
  qed
qed

definition standard_cds_payment_dates :: "date list" where
  "standard_cds_payment_dates = [Date 2014 3 20, Date 2014 6 20, Date 2014 9 20, Date 2014 12 20]"

definition nonstandard_cds_payment_dates :: "date list" where
  "nonstandard_cds_payment_dates = [Date 2014 2 15, Date 2014 5 15, Date 2014 8 15, Date 2014 11 15]"

subsection \<open>The schedule moves forward\<close>

lemma weekday_after_rollover:
  "(x + 6) mod 7 = (5::int) \<Longrightarrow> (x + 2 + 6) mod 7 = 0"
  "(x + 6) mod 7 = (6::int) \<Longrightarrow> (x + 1 + 6) mod 7 = 0"
  by presburger+

lemma weekend_rollover_fixed:
  assumes "weekend_rollover a = Inr p"
  shows "weekend_rollover p = Inr p"
proof -
  from assms consider "weekday a \<noteq> 5" "weekday a \<noteq> 6" "p = a"
    | "weekday a = 5" "add_days a 2 = Inr p" | "weekday a = 6" "add_days a 1 = Inr p"
    unfolding weekend_rollover_def by (cases "weekday a = 5"; cases "weekday a = 6"; simp)
  then show ?thesis
  proof cases
    case 1
    then show ?thesis by (simp add: weekend_rollover_def)
  next
    case 2
    from add_days_Inr [OF 2(2)] 2(1) weekday_after_rollover(1) [of "toordinal a"]
    have "weekday p = 0" by (simp add: weekday_def)
    then show ?thesis by (simp add: weekend_rollover_def)
  next
    case 3
    from add_days_Inr [OF 3(2)] 3(1) weekday_after_rollover(2) [of "toordinal a"]
    have "weekday p = 0" by (simp add: weekday_def)
    then show ?thesis by (simp add: weekend_rollover_def)
  qed
qed

lemma weekend_rollover_anchor:
  assumes "1 \<le> y" "y \<le> 9999" "1 \<le> m" "m \<le> 12" "1 \<le> d" "d \<le> 26"
  shows "\<exists>p. weekend_rollover (Date y m d) = Inr p"
proof -
  have v: "valid_date (Date y m (d + k))" if "0 \<le> k" "k \<le> 2" for k
    using assms that days_in_month_bounds(1) [of y m] by (simp add: valid_date_def MAXYEAR_def)
  have "add_days (Date y m d) k = Inr (Date y m (d + k))" if "0 \<le> k" "k \<le> 2" for k
    using v [OF that] by (intro add_days_eq) (simp_all add: toordinal_def)
  from this [of 1] this [of 2] show ?thesis
    by (simp add: weekend_rollover_def)
qed


lemma direct_returns:
  assumes "anchor_branch c pds = Inr (Some p)" "valid_date c"
    "1 \<le> month p" "month p \<le> 12" "1 \<le> day p" "day p \<le> 26"
  shows "\<exists>q. next_payment_date c pds = Inr q \<and> weekend_rollover q = Inr q"
proof -
  have v: "valid_date (Date (year c) (month p) (day p))"
    using assms days_in_month_bounds(1) [of "year c" "month p"] by (simp add: valid_date_def)
  from weekend_rollover_anchor [of "year c" "month p" "day p"] assms
  obtain q where q: "weekend_rollover (Date (year c) (month p) (day p)) = Inr q"
    by (auto simp: valid_date_def MAXYEAR_def)
  have "next_payment_date c pds = Inr q"
    using assms(1) v q by (subst next_payment_date.simps) (simp add: mk_date_def)
  with weekend_rollover_fixed [OF q] show ?thesis by simp
qed

lemma else_day_returns:
  assumes "anchor_branch c pds = Inr None" "py_index pds 0 = Inr p0" "day c < day p0"
    "valid_date c" "1 \<le> day p0" "day p0 \<le> 26"
  shows "\<exists>q. next_payment_date c pds = Inr q \<and> weekend_rollover q = Inr q"
proof -
  have v: "valid_date (Date (year c) (month c) (day p0))"
    using assms days_in_month_bounds(1) [of "year c" "month c"] by (simp add: valid_date_def)
  from weekend_rollover_anchor [of "year c" "month c" "day p0"] assms
  obtain q where q: "weekend_rollover (Date (year c) (month c) (day p0)) = Inr q"
    by (auto simp: valid_date_def MAXYEAR_def)
  have "next_payment_date c pds = Inr q"
    using assms(1,2,3) v q by (subst next_payment_date.simps) (simp add: mk_date_def)
  with weekend_rollover_fixed [OF q] show ?thesis by simp
qed

lemma else_rec_returns:
  assumes "anchor_branch c pds = Inr None" "py_index pds 0 = Inr p0" "\<not> day c < day p0"
    "add_month c = Inr c'" "next_payment_date c' pds = Inr q" "weekend_rollover q = Inr q"
  shows "next_payment_date c pds = Inr q \<and> weekend_rollover q = Inr q"
  using assms by (subst next_payment_date.simps) simp

lemma add_month_valid:
  assumes "valid_date c" "year c < 9999"
  shows "\<exists>c'. add_month c = Inr c' \<and> valid_date c'
     \<and> (if month c = 12 then month c' = 1 \<and> year c' = year c + 1
         else month c' = month c + 1 \<and> year c' = year c)"
proof -
  have "1 \<le> min (days_in_month y m) (day c)" "min (days_in_month y m) (day c) \<le> days_in_month y m" for y m
    using assms days_in_month_bounds(1) [of y m] by (simp_all add: valid_date_def)
  then show ?thesis
    using assms by (simp add: add_month_def Let_def mk_date_def valid_date_def MAXYEAR_def)
qed

lemma standard_cycle_returns:
  assumes "valid_date c" "year c < 9999"
  shows "\<exists>q. next_payment_date c standard_cds_payment_dates = Inr q \<and> weekend_rollover q = Inr q"
proof -
  let ?pds = standard_cds_payment_dates
  have p0: "py_index ?pds 0 = Inr (Date 2014 3 20)"
    by (simp add: standard_cds_payment_dates_def py_index_def)
  have direct: "\<exists>q. next_payment_date x ?pds = Inr q \<and> weekend_rollover q = Inr q"
    if "valid_date x" "month x \<notin> {3, 6, 9, 12}" for x
  proof -
    from that month_cases [of "month x"]
    have "\<exists>p \<in> set ?pds. anchor_branch x ?pds = Inr (Some p)"
      by (auto simp: valid_date_def anchor_branch_def standard_cds_payment_dates_def py_index_def)
    then obtain p where "p \<in> set ?pds" "anchor_branch x ?pds = Inr (Some p)" by blast
    with that(1) show ?thesis
      by (intro direct_returns [of x ?pds p]) (auto simp: standard_cds_payment_dates_def)
  qed
  show ?thesis
  proof (cases "month c \<in> {3, 6, 9, 12}")
    case False
    with assms(1) show ?thesis by (rule direct)
  next
    case True
    then have br: "anchor_branch c ?pds = Inr None"
      by (auto simp: anchor_branch_def standard_cds_payment_dates_def py_index_def)
    show ?thesis
    proof (cases "day c < 20")
      case d: True
      with br p0 assms(1) show ?thesis
        by (intro else_day_returns [of c ?pds "Date 2014 3 20"]) simp_all
    next
      case d: False
      from add_month_valid [OF assms] obtain c' where c': "add_month c = Inr c'" "valid_date c'"
        "if month c = 12 then month c' = 1 \<and> year c' = year c + 1
         else month c' = month c + 1 \<and> year c' = year c" by blast
      with True have "month c' \<notin> {3, 6, 9, 12}" by (auto split: if_splits)
      from direct [OF c'(2) this] obtain q where
        q: "next_payment_date c' ?pds = Inr q" "weekend_rollover q = Inr q" by blast
      from else_rec_returns [OF br p0 _ c'(1) q] d show ?thesis by auto
    qed
  qed
qed


lemma nonstandard_cycle_returns:
  assumes "valid_date c" "year c < 9999"
  shows "\<exists>q. next_payment_date c nonstandard_cds_payment_dates = Inr q \<and> weekend_rollover q = Inr q"
proof -
  let ?pds = nonstandard_cds_payment_dates
  have p0: "py_index ?pds 0 = Inr (Date 2014 2 15)"
    by (simp add: nonstandard_cds_payment_dates_def py_index_def)
  have none: "anchor_branch x ?pds = Inr None" if "month x \<in> {2, 5, 8, 11, 12}" for x
    using that by (auto simp: anchor_branch_def nonstandard_cds_payment_dates_def py_index_def)
  have direct: "\<exists>q. next_payment_date x ?pds = Inr q \<and> weekend_rollover q = Inr q"
    if "valid_date x" "month x \<notin> {2, 5, 8, 11, 12}" for x
  proof -
    from that month_cases [of "month x"]
    have "\<exists>p \<in> set ?pds. anchor_branch x ?pds = Inr (Some p)"
      by (auto simp: valid_date_def anchor_branch_def nonstandard_cds_payment_dates_def py_index_def)
    then obtain p where "p \<in> set ?pds" "anchor_branch x ?pds = Inr (Some p)" by blast
    with that(1) show ?thesis
      by (intro direct_returns [of x ?pds p]) (auto simp: nonstandard_cds_payment_dates_def)
  qed
  have step: "\<exists>q. next_payment_date x ?pds = Inr q \<and> weekend_rollover q = Inr q"
    if x: "valid_date x" "year x < 9999" "month x \<in> {2, 5, 8, 11, 12}"
      and next_ok: "\<And>x'. valid_date x' \<Longrightarrow> add_month x = Inr x' \<Longrightarrow>
         \<exists>q. next_payment_date x' ?pds = Inr q \<and> weekend_rollover q = Inr q" for x
  proof (cases "day x < 15")
    case True
    with none [OF x(3)] p0 x(1) show ?thesis
      by (intro else_day_returns [of x ?pds "Date 2014 2 15"]) simp_all
  next
    case False
    from add_month_valid [OF x(1,2)] obtain x' where x': "add_month x = Inr x'" "valid_date x'" by blast
    from next_ok [OF x'(2,1)] obtain q where
      q: "next_payment_date x' ?pds = Inr q" "weekend_rollover q = Inr q" by blast
    from else_rec_returns [OF none [OF x(3)] p0 _ x'(1) q] False show ?thesis by auto
  qed
  have december: "\<exists>q. next_payment_date x ?pds = Inr q \<and> weekend_rollover q = Inr q"
    if x: "valid_date x" "year x < 9999" "month x = 12" for x
  proof (rule step [OF x(1,2)])
    show "month x \<in> {2, 5, 8, 11, 12}" using x(3) by simp
  next
    fix x' assume x': "valid_date x'" "add_month x = Inr x'"
    from add_month_valid [OF x(1,2)] x'(2) x(3) have "month x' = 1" by auto
    with x'(1) show "\<exists>q. next_payment_date x' ?pds = Inr q \<and> weekend_rollover q = Inr q"
      by (intro direct) simp_all
  qed
  show ?thesis
  proof (cases "month c \<in> {2, 5, 8, 11, 12}")
    case False
    with assms(1) show ?thesis by (rule direct)
  next
    case True
    show ?thesis
    proof (rule step [OF assms True])
      fix x' assume x': "valid_date x'" "add_month c = Inr x'"
      from add_month_valid [OF assms] x'(2) True
      have m: "month x' \<in> {3, 6, 9, 12, 1}" and y: "month x' = 12 \<longrightarrow> year x' = year c"
        by (auto split: if_splits)
      show "\<exists>q. next_payment_date x' ?pds = Inr q \<and> weekend_rollover q = Inr q"
      proof (cases "month x' = 12")
        case True
        with y assms(2) x'(1) show ?thesis by (intro december) simp_all
      next
        case False
        with m x'(1) show ?thesis by (intro direct) auto
      qed
    qed
  qed
qed

section \<open>Discount curve\<close>

text \<open>
  The Nelson-Siegel parameters are the default arguments of \<open>r\<close> and \<open>Z\<close>; the
  notebook never passes others.
\<close>

definition B0 :: real where "B0 = 0.0408"
definition B1 :: real where "B1 = - 0.0396"
definition B2 :: real where "B2 = - 0.0511"
definition tau :: real where "tau = 1.614"

definition r :: "real \<Rightarrow> real" where
  "r x = (if x = 0 then 0
          else B0 + B1 * (tau / x) * (1 - exp (- x / tau))
               + B2 * ((tau / x) * (1 - exp (- x / tau)) - exp (- x / tau)))"

definition Z :: "real \<Rightarrow> real" where
  "Z x = exp (- r x * x)"

section \<open>Market data and the hazard-pillar map\<close>

text \<open>
  The notebook's module-level variables, passed explicitly: the effective date, the
  pillar dates and the spreads (a dict from tenor to spread in basis points, of which
  only the values in insertion order are read).
\<close>

record market =
  effective_date :: date
  spread_maturity_dates :: "date list"
  spread_data :: "(real \<times> real) list"

text \<open>
  A dict keeps its keys in insertion order. The values of \<open>h_values\<close> are floats or
  \<open>None\<close> (what the root finder returns when it finds no solution).
\<close>

type_synonym hazard_map = "(date \<times> real option) list"

definition dict_get :: "('k \<times> 'v) list \<Rightarrow> 'k \<Rightarrow> py_error + 'v" where
  "dict_get m k = (case map_of m k of None \<Rightarrow> Inl KeyError | Some v \<Rightarrow> Inr v)"


text \<open>An operand of a float multiplication: \<open>None\<close> raises TypeError.\<close>

definition py_float :: "real option \<Rightarrow> py_error + real" where
  "py_float v = (case v of None \<Rightarrow> Inl TypeError | Some x \<Rightarrow> Inr x)"

text \<open>\<open>int(x)\<close> truncates towards zero.\<close>

definition py_int :: "real \<Rightarrow> int" where
  "py_int x = (if 0 \<le> x then \<lfloor>x\<rfloor> else \<lceil>x\<rceil>)"

text \<open>\<open>xs.index(x)\<close>: the first position of \<open>x\<close>, ValueError when it is absent.\<close>

fun list_index :: "'a list \<Rightarrow> 'a \<Rightarrow> py_error + nat" where
  "list_index [] x = Inl ValueError"
| "list_index (y # ys) x =
     (if y = x then Inr 0
      else (case list_index ys x of Inl e \<Rightarrow> Inl e | Inr i \<Rightarrow> Inr (Suc i)))"

text \<open>\<open>xs[-1]\<close>: IndexError on the empty list.\<close>

definition py_last :: "'a list \<Rightarrow> py_error + 'a" where
  "py_last xs = (if xs = [] then Inl IndexError else Inr (last xs))"

section \<open>Survival model\<close>

definition K :: "real \<Rightarrow> real \<Rightarrow> int" where
  "K T_i m = \<lceil>m * T_i\<rceil>"

definition s :: "real \<Rightarrow> real \<Rightarrow> real \<Rightarrow> real" where
  "s k T_i m = k * T_i / real_of_int (K T_i m)"

text \<open>
  The for loop of \<open>Q_h\<close> over the pillars: \<open>start_date\<close> is the pillar before
  the current one (the effective date at index 0), \<open>h_t\<close> the hazard integrated so far.
\<close>

fun Q_h_scan ::
  "hazard_map \<Rightarrow> real option \<Rightarrow> date \<Rightarrow> date \<Rightarrow> date list \<Rightarrow> real \<Rightarrow> py_error + real" where
  "Q_h_scan prev_h h_i end_date start_date [] h_t = Inr h_t"
| "Q_h_scan prev_h h_i end_date start_date (mat_date # rest) h_t =
     (if mat_date < end_date
      then (case dict_get prev_h mat_date of Inl e \<Rightarrow> Inl e | Inr v \<Rightarrow>
            (case py_float v of Inl e \<Rightarrow> Inl e | Inr h \<Rightarrow>
             Q_h_scan prev_h h_i end_date mat_date rest
               (h_t + h * (real_of_int (days_between mat_date start_date) / 360))))
      else (case py_float h_i of Inl e \<Rightarrow> Inl e | Inr h \<Rightarrow>
            Inr (h_t + h * (real_of_int (days_between end_date start_date) / 360))))"

definition Q_h :: "market \<Rightarrow> real \<Rightarrow> real option \<Rightarrow> hazard_map \<Rightarrow> py_error + real" where
  "Q_h mk t h_i prev_h =
     (case add_days (effective_date mk) (py_int (t * 360)) of Inl e \<Rightarrow> Inl e | Inr end_date \<Rightarrow>
      (case Q_h_scan prev_h h_i end_date (effective_date mk) (spread_maturity_dates mk) 0 of
         Inl e \<Rightarrow> Inl e
       | Inr h_t \<Rightarrow> Inr (exp (- h_t))))"

fun diff_scan :: "date \<Rightarrow> date \<Rightarrow> date list \<Rightarrow> real" where
  "diff_scan end_date start_date [] = 0"
| "diff_scan end_date start_date (mat_date # rest) =
     (if mat_date \<ge> end_date then real_of_int (days_between end_date start_date) / 360
      else diff_scan end_date mat_date rest)"

definition diff_Q_h :: "market \<Rightarrow> real \<Rightarrow> real option \<Rightarrow> hazard_map \<Rightarrow> py_error + real" where
  "diff_Q_h mk t h_i prev_h =
     (case add_days (effective_date mk) (py_int (t * 360)) of Inl e \<Rightarrow> Inl e | Inr end_date \<Rightarrow>
      (let diff = diff_scan end_date (effective_date mk) (spread_maturity_dates mk)
       in (case Q_h mk t h_i prev_h of Inl e \<Rightarrow> Inl e | Inr q \<Rightarrow> Inr (- diff * q))))"

section \<open>CDS valuation engine\<close>

text \<open>The protection-leg for loop over \<open>range(K(T))\<close>, accumulating \<open>b\<close>.\<close>

fun protection_loop ::
  "market \<Rightarrow> real option \<Rightarrow> hazard_map \<Rightarrow> real \<Rightarrow> nat list \<Rightarrow> real \<Rightarrow> py_error + real" where
  "protection_loop mk h_i prev_h T [] b = Inr b"
| "protection_loop mk h_i prev_h T (k # ks) b =
     (case Q_h mk (s (real k) T 12) h_i prev_h of Inl e \<Rightarrow> Inl e | Inr q1 \<Rightarrow>
      (case Q_h mk (s (real (k + 1)) T 12) h_i prev_h of Inl e \<Rightarrow> Inl e | Inr q2 \<Rightarrow>
       protection_loop mk h_i prev_h T ks
         (b + (Z (s (real k) T 12) + Z (s (real (k + 1)) T 12)) * (q1 - q2))))"

text \<open>
  The order of the calendar decreases along the payment dates that
  \<open>next_payment_date\<close> produces: this is what ends the premium-leg while loops.
\<close>

definition days_left :: "date \<Rightarrow> nat" where
  "days_left d = (if valid_date d then nat (MAXORDINAL - toordinal d) else nat (MAXORDINAL + 1))"

lemma days_left_decreases:
  assumes "next_payment_date d pds = Inr d'"
  shows "days_left d' < days_left d"
proof -
  from next_payment_date_later [OF assms] have l: "d < d'" and v: "valid_date d'" by simp_all
  show ?thesis
  proof (cases "valid_date d")
    case True
    with l v toordinal_less [of d d'] toordinal_range [of d'] show ?thesis
      by (simp add: days_left_def)
  next
    case False
    with v toordinal_range [of d'] show ?thesis
      by (simp add: days_left_def MAXORDINAL_def)
  qed
qed

text \<open>The premium-leg while loop, accumulating \<open>d\<close>.\<close>

function premium_loop ::
  "market \<Rightarrow> real option \<Rightarrow> hazard_map \<Rightarrow> date list \<Rightarrow> date \<Rightarrow> date \<Rightarrow> date \<Rightarrow> real
     \<Rightarrow> py_error + real" where
  "premium_loop mk h_i prev_h payment_dates maturity_date current_date next_pay_date d =
     (if next_pay_date \<le> maturity_date
      then (let delta_t = real_of_int (days_between next_pay_date current_date) / 360;
                t_1 = real_of_int (days_between current_date (effective_date mk)) / 360;
                t_2 = real_of_int (days_between next_pay_date (effective_date mk)) / 360
            in (case Q_h mk t_1 h_i prev_h of Inl e \<Rightarrow> Inl e | Inr q1 \<Rightarrow>
                (case Q_h mk t_2 h_i prev_h of Inl e \<Rightarrow> Inl e | Inr q2 \<Rightarrow>
                 (case next_payment_date next_pay_date payment_dates of
                    Inl e \<Rightarrow> Inl e
                  | Inr following \<Rightarrow>
                      premium_loop mk h_i prev_h payment_dates maturity_date next_pay_date following
                        (d + delta_t * Z t_2 * (q1 + q2))))))
      else Inr d)"
  by pat_completeness auto
termination
  by (relation "measure (\<lambda>(mk, h_i, prev_h, pds, mat, cur, nxt, d). days_left nxt)")
    (auto simp: days_left_decreases)

declare premium_loop.simps [simp del]

text \<open>
  The same while loop with no termination argument built in: \<open>None\<close> would be a
  run that never leaves the loop.
\<close>

partial_function (option) premium_while ::
  "market \<Rightarrow> real option \<Rightarrow> hazard_map \<Rightarrow> date list \<Rightarrow> date \<Rightarrow> date \<Rightarrow> date \<Rightarrow> real
     \<Rightarrow> (py_error + real) option" where
  "premium_while mk h_i prev_h payment_dates maturity_date current_date next_pay_date d =
     (if next_pay_date \<le> maturity_date
      then (let delta_t = real_of_int (days_between next_pay_date current_date) / 360;
                t_1 = real_of_int (days_between current_date (effective_date mk)) / 360;
                t_2 = real_of_int (days_between next_pay_date (effective_date mk)) / 360
            in (case Q_h mk t_1 h_i prev_h of Inl e \<Rightarrow> Some (Inl e) | Inr q1 \<Rightarrow>
                (case Q_h mk t_2 h_i prev_h of Inl e \<Rightarrow> Some (Inl e) | Inr q2 \<Rightarrow>
                 (case next_payment_date next_pay_date payment_dates of
                    Inl e \<Rightarrow> Some (Inl e)
                  | Inr following \<Rightarrow>
                      premium_while mk h_i prev_h payment_dates maturity_date next_pay_date following
                        (d + delta_t * Z t_2 * (q1 + q2))))))
      else Some (Inr d))"

lemma premium_while_terminates:
  "premium_while mk h_i prev_h pds mat cur nxt d = Some (premium_loop mk h_i prev_h pds mat cur nxt d)"
proof (induction mk h_i prev_h pds mat cur nxt d rule: premium_loop.induct)
  case (1 mk h_i prev_h pds mat cur nxt d)
  show ?case
  proof (cases "nxt \<le> mat")
    case False
    then show ?thesis
      by (subst premium_while.simps, subst premium_loop.simps) simp
  next
    case True
    show ?thesis
    proof (cases "Q_h mk (real_of_int (days_between cur (effective_date mk)) / 360) h_i prev_h")
      case (Inl e)
      with True show ?thesis
        by (subst premium_while.simps, subst premium_loop.simps) (simp add: Let_def)
    next
      case q1: (Inr q1)
      show ?thesis
      proof (cases "Q_h mk (real_of_int (days_between nxt (effective_date mk)) / 360) h_i prev_h")
        case (Inl e)
        with True q1 show ?thesis
          by (subst premium_while.simps, subst premium_loop.simps) (simp add: Let_def)
      next
        case q2: (Inr q2)
        show ?thesis
        proof (cases "next_payment_date nxt pds")
          case (Inl e)
          with True q1 q2 show ?thesis
            by (subst premium_while.simps, subst premium_loop.simps) (simp add: Let_def)
        next
          case (Inr following)
          from "1.IH" [OF True refl refl refl q1 q2 Inr] True q1 q2 Inr show ?thesis
            by (subst premium_while.simps, subst premium_loop.simps) (simp add: Let_def)
        qed
      qed
    qed
  qed
qed

definition standard_cds_mtm_value ::
  "market \<Rightarrow> real option \<Rightarrow> date \<Rightarrow> hazard_map \<Rightarrow> date list \<Rightarrow> real \<Rightarrow> py_error + real" where
  "standard_cds_mtm_value mk h_i maturity_date prev_h payment_dates R =
     (let a = (1 - R) * 100 / 2;
          T = real_of_int (days_between maturity_date (effective_date mk)) / 360
      in (case protection_loop mk h_i prev_h T [0..<nat (K T 12)] 0 of Inl e \<Rightarrow> Inl e | Inr b \<Rightarrow>
          (case list_index (spread_maturity_dates mk) maturity_date of
             Inl e \<Rightarrow> Inl e
           | Inr maturity_date_index \<Rightarrow>
          (case py_index (map snd (spread_data mk)) maturity_date_index of
             Inl e \<Rightarrow> Inl e
           | Inr spread \<Rightarrow>
          (let c = 0.5 * spread
           in (case next_payment_date (effective_date mk) payment_dates of
                 Inl e \<Rightarrow> Inl e
               | Inr next_pay_date \<Rightarrow>
               (case premium_loop mk h_i prev_h payment_dates maturity_date
                       (effective_date mk) next_pay_date 0 of
                  Inl e \<Rightarrow> Inl e
                | Inr d \<Rightarrow> Inr (a * b - c * d))))))))"

text \<open>The same two loops in \<open>d_standard_cds_mtm_value\<close>, as the notebook writes them again.\<close>

fun d_protection_loop ::
  "market \<Rightarrow> real option \<Rightarrow> hazard_map \<Rightarrow> real \<Rightarrow> nat list \<Rightarrow> real \<Rightarrow> py_error + real" where
  "d_protection_loop mk h_i prev_h T [] b = Inr b"
| "d_protection_loop mk h_i prev_h T (k # ks) b =
     (case diff_Q_h mk (s (real k) T 12) h_i prev_h of Inl e \<Rightarrow> Inl e | Inr q1 \<Rightarrow>
      (case diff_Q_h mk (s (real (k + 1)) T 12) h_i prev_h of Inl e \<Rightarrow> Inl e | Inr q2 \<Rightarrow>
       d_protection_loop mk h_i prev_h T ks
         (b + (Z (s (real k) T 12) + Z (s (real (k + 1)) T 12)) * (q1 - q2))))"

function d_premium_loop ::
  "market \<Rightarrow> real option \<Rightarrow> hazard_map \<Rightarrow> date list \<Rightarrow> date \<Rightarrow> date \<Rightarrow> date \<Rightarrow> real
     \<Rightarrow> py_error + real" where
  "d_premium_loop mk h_i prev_h payment_dates maturity_date current_date next_pay_date d =
     (if next_pay_date \<le> maturity_date
      then (let delta_t = real_of_int (days_between next_pay_date current_date) / 360;
                t_1 = real_of_int (days_between current_date (effective_date mk)) / 360;
                t_2 = real_of_int (days_between next_pay_date (effective_date mk)) / 360
            in (case diff_Q_h mk t_1 h_i prev_h of Inl e \<Rightarrow> Inl e | Inr q1 \<Rightarrow>
                (case diff_Q_h mk t_2 h_i prev_h of Inl e \<Rightarrow> Inl e | Inr q2 \<Rightarrow>
                 (case next_payment_date next_pay_date payment_dates of
                    Inl e \<Rightarrow> Inl e
                  | Inr following \<Rightarrow>
                      d_premium_loop mk h_i prev_h payment_dates maturity_date next_pay_date following
                        (d + delta_t * Z t_2 * (q1 + q2))))))
      else Inr d)"
  by pat_completeness auto
termination
  by (relation "measure (\<lambda>(mk, h_i, prev_h, pds, mat, cur, nxt, d). days_left nxt)")
    (auto simp: days_left_decreases)

declare d_premium_loop.simps [simp del]

definition d_standard_cds_mtm_value ::
  "market \<Rightarrow> real option \<Rightarrow> date \<Rightarrow> hazard_map \<Rightarrow> date list \<Rightarrow> real \<Rightarrow> py_error + real" where
  "d_standard_cds_mtm_value mk h_i maturity_date prev_h payment_dates R =
     (let a = (1 - R) * 100 / 2;
          T = real_of_int (days_between maturity_date (effective_date mk)) / 360
      in (case d_protection_loop mk h_i prev_h T [0..<nat (K T 12)] 0 of Inl e \<Rightarrow> Inl e | Inr b \<Rightarrow>
          (case list_index (spread_maturity_dates mk) maturity_date of
             Inl e \<Rightarrow> Inl e
           | Inr maturity_date_index \<Rightarrow>
          (case py_index (map snd (spread_data mk)) maturity_date_index of
             Inl e \<Rightarrow> Inl e
           | Inr spread \<Rightarrow>
          (let c = 0.5 * spread
           in (case next_payment_date (effective_date mk) payment_dates of
                 Inl e \<Rightarrow> Inl e
               | Inr next_pay_date \<Rightarrow>
               (case d_premium_loop mk h_i prev_h payment_dates maturity_date
                       (effective_date mk) next_pay_date 0 of
                  Inl e \<Rightarrow> Inl e
                | Inr d \<Rightarrow> Inr (a * b - c * d))))))))"

section \<open>Root finder\<close>

text \<open>\<open>np.finfo(float).eps\<close>, the machine epsilon of a double.\<close>

definition float_eps :: real where
  "float_eps = 1 / 2 ^ 52"

text \<open>
  The function starts with \<open>np.seterr(all="raise")\<close>: a division by zero raises
  FloatingPointError.
\<close>

definition float_div :: "real \<Rightarrow> real \<Rightarrow> py_error + real" where
  "float_div a b = (if b = 0 then Inl FloatingPointError else Inr (a / b))"

text \<open>
  The while loop of \<open>newton_raphson_method\<close>. Nothing bounds the number of its
  iterations, so it is a partial function: \<open>None\<close> is a run that never returns,
  \<open>Some (Inr None)\<close> the return of Python's \<open>None\<close>, \<open>Some (Inr (Some x))\<close> the
  return of the root \<open>x\<close>, \<open>Some (Inl e)\<close> an exception raised by \<open>f\<close> or \<open>d_f\<close>.
\<close>

partial_function (option) newton_loop ::
  "(real \<Rightarrow> date \<Rightarrow> hazard_map \<Rightarrow> py_error + real) \<Rightarrow>
   (real \<Rightarrow> date \<Rightarrow> hazard_map \<Rightarrow> py_error + real) \<Rightarrow>
   date \<Rightarrow> hazard_map \<Rightarrow> real \<Rightarrow> real \<Rightarrow> real \<Rightarrow> (py_error + real option) option" where
  "newton_loop f d_f maturity_date prev_h eps x val =
     (if \<bar>val\<bar> > eps
      then (case d_f x maturity_date prev_h of
              Inl e \<Rightarrow> Some (Inl e)
            | Inr diff \<Rightarrow>
                if \<bar>diff\<bar> > sqrt float_eps
                then (case float_div val diff of
                        Inl e \<Rightarrow> Some (Inl e)
                      | Inr ratio \<Rightarrow>
                          (case f (x - ratio) maturity_date prev_h of
                             Inl e \<Rightarrow> Some (Inl e)
                           | Inr val' \<Rightarrow>
                               newton_loop f d_f maturity_date prev_h eps (x - ratio) val'))
                else Some (Inr None))
      else Some (Inr (Some x)))"

definition newton_raphson_method ::
  "(real \<Rightarrow> date \<Rightarrow> hazard_map \<Rightarrow> py_error + real) \<Rightarrow>
   (real \<Rightarrow> date \<Rightarrow> hazard_map \<Rightarrow> py_error + real) \<Rightarrow>
   date \<Rightarrow> hazard_map \<Rightarrow> real \<Rightarrow> real \<Rightarrow> (py_error + real option) option" where
  "newton_raphson_method f d_f maturity_date prev_h x eps =
     (case f x maturity_date prev_h of
        Inl e \<Rightarrow> Some (Inl e)
      | Inr val \<Rightarrow> newton_loop f d_f maturity_date prev_h eps x val)"

section \<open>Calibration driver and query\<close>



text \<open>The for loop of \<open>Q\<close> and the return after it.\<close>

fun Q_scan :: "market \<Rightarrow> hazard_map \<Rightarrow> real \<Rightarrow> date \<Rightarrow> date list \<Rightarrow> py_error + real" where
  "Q_scan mk h_values t dat [] =
     (case py_last (map snd h_values) of Inl e \<Rightarrow> Inl e | Inr h \<Rightarrow> Q_h mk t h h_values)"
| "Q_scan mk h_values t dat (mat_date # rest) =
     (if dat \<le> mat_date
      then (case dict_get h_values mat_date of Inl e \<Rightarrow> Inl e | Inr h \<Rightarrow> Q_h mk t h h_values)
      else Q_scan mk h_values t dat rest)"

definition Q :: "market \<Rightarrow> hazard_map \<Rightarrow> date \<Rightarrow> py_error + real" where
  "Q mk h_values dat =
     (if dat < effective_date mk then Inr 0
      else (let t = real_of_int (days_between dat (effective_date mk)) / 360
            in Q_scan mk h_values t dat (spread_maturity_dates mk)))"

section \<open>The notebook's data\<close>

definition contract_date :: date where
  "contract_date = Date 2014 2 28"

definition spread_maturity_dates_before_adjustment :: "date list" where
  "spread_maturity_dates_before_adjustment =
     [Date 2014 9 20, Date 2015 3 20, Date 2016 3 20, Date 2017 3 20, Date 2018 3 20,
      Date 2019 3 20, Date 2021 3 20, Date 2024 3 20, Date 2034 3 20, Date 2044 3 20]"

definition notebook_market :: market where
  "notebook_market =
     \<lparr>effective_date = Date 2014 3 1,
      spread_maturity_dates =
        [Date 2014 9 22, Date 2015 3 20, Date 2016 3 21, Date 2017 3 20, Date 2018 3 20,
         Date 2019 3 20, Date 2021 3 22, Date 2024 3 20, Date 2034 3 20, Date 2044 3 21],
      spread_data =
        [(0.5, 103.07), (1, 104.68), (2, 106.74), (3, 110.31), (4, 113.38),
         (5, 116.98), (7, 128.78), (10, 143.51), (20, 159.43), (30, 164.13)]\<rparr>"

text \<open>The hazard-pillar map that the calibration cell of the notebook printed.\<close>

definition notebook_h_values :: hazard_map where
  "notebook_h_values =
     [(Date 2014 9 22, Some 1.906293407117043), (Date 2015 3 20, Some 1.953364459804524),
      (Date 2016 3 21, Some 2.0157485147215066), (Date 2017 3 20, Some 2.129561259497372),
      (Date 2018 3 20, Some 2.2270680733742383), (Date 2019 3 20, Some 2.3402157994365926),
      (Date 2021 3 22, Some 2.7012830118133793), (Date 2024 3 20, Some 3.1345861935068893),
      (Date 2034 3 20, Some 3.5864503288466683), (Date 2044 3 21, Some 3.717295971213892)]"

text \<open>The definitions that evaluate a concrete date computation.\<close>

lemmas calendar_eval =
  py_index_def mk_date_def valid_date_def MAXYEAR_def MAXORDINAL_def days_in_month_def is_leap_def
  weekend_rollover_def weekday_def toordinal_def days_before_year_def days_before_month_def
  less_date_def less_eq_date_def days_between_def

section \<open>Properties of the payment schedule\<close>

text \<open>
  C8. \<open>next_payment_date\<close> is to return the earliest anchor date after its input,
  rolled off the weekend, for the standard and for the non-standard cycle alike. On the
  non-standard cycle (15 February, May, August, November) a date in December before the
  15th takes the final else of the if/elif chain, which the code's comment reserves for
  the payment months, and comes back as 15 December of the same year: a Monday in 2014,
  so no weekend roll is involved, and not an anchor of the cycle.
\<close>

theorem next_payment_date_december_nonstandard:
  "next_payment_date (Date 2014 12 1) nonstandard_cds_payment_dates = Inr (Date 2014 12 15)
   \<and> (12, 15) \<notin> set (map (\<lambda>p. (month p, day p)) nonstandard_cds_payment_dates)
   \<and> weekday (Date 2014 12 15) = 0"
  by (simp add: next_payment_date.simps anchor_branch_def nonstandard_cds_payment_dates_def calendar_eval)

text \<open>
  C9 (amended). Whenever \<open>next_payment_date\<close> returns a date, for any list of
  anchors, that date is strictly later than its input. It does return one for the
  standard and for the non-standard cycle at every date before the year 9999. The
  premium-leg while loop, which moves from each payment date to the next, always
  terminates: run with no termination argument built in, it ends with the result of
  \<open>premium_loop\<close> (the leg sum, or the exception raised on the way).
\<close>

theorem next_payment_date_progress:
  "(\<forall>p. next_payment_date c pds = Inr p \<longrightarrow> c < p)
   \<and> (valid_date c \<and> year c < 9999
        \<and> (pds = standard_cds_payment_dates \<or> pds = nonstandard_cds_payment_dates)
      \<longrightarrow> (\<exists>p. next_payment_date c pds = Inr p \<and> c < p))
   \<and> premium_while mk h_i prev_h pds mat cur nxt d
       = Some (premium_loop mk h_i prev_h pds mat cur nxt d)"
proof (intro conjI allI impI)
  fix p assume "next_payment_date c pds = Inr p"
  then show "c < p" by (simp add: next_payment_date_later)
next
  assume a: "valid_date c \<and> year c < 9999
    \<and> (pds = standard_cds_payment_dates \<or> pds = nonstandard_cds_payment_dates)"
  then obtain p where "next_payment_date c pds = Inr p"
    using standard_cycle_returns [of c] nonstandard_cycle_returns [of c] by blast
  then show "\<exists>p. next_payment_date c pds = Inr p \<and> c < p"
    by (auto simp: next_payment_date_later)
next
  show "premium_while mk h_i prev_h pds mat cur nxt d
    = Some (premium_loop mk h_i prev_h pds mat cur nxt d)"
    by (rule premium_while_terminates)
qed

theorem next_payment_date_progress_witness:
  "valid_date (Date 2014 3 20) \<and> year (Date 2014 3 20) < 9999
   \<and> next_payment_date (Date 2014 3 20) standard_cds_payment_dates = Inr (Date 2014 6 20)
   \<and> Date 2014 3 20 < Date 2014 6 20
   \<and> premium_while notebook_market (Some 0.01) [] standard_cds_payment_dates
         (Date 2014 9 22) (Date 2014 3 1) (Date 2014 3 20) 0
       = Some (premium_loop notebook_market (Some 0.01) [] standard_cds_payment_dates
         (Date 2014 9 22) (Date 2014 3 1) (Date 2014 3 20) 0)"
proof -
  have v: "valid_date (Date 2014 3 20) \<and> year (Date 2014 3 20) < 9999"
    by (simp add: calendar_eval)
  have e: "next_payment_date (Date 2014 3 20) standard_cds_payment_dates = Inr (Date 2014 6 20)"
    by (simp add: next_payment_date.simps anchor_branch_def standard_cds_payment_dates_def
        add_month_def Let_def calendar_eval)
  note t = next_payment_date_progress [of "Date 2014 3 20" standard_cds_payment_dates
      notebook_market "Some 0.01" "[]" "Date 2014 9 22" "Date 2014 3 1" "Date 2014 3 20" 0]
  from t e have "Date 2014 3 20 < Date 2014 6 20" by blast
  with t v e show ?thesis by blast
qed

text \<open>
  As stated, for every input date, the claim fails at the end of the calendar: after
  20 December 9999 there is no date for the next month to be in, and the call raises
  ValueError.
\<close>

theorem next_payment_date_end_of_calendar:
  "valid_date (Date 9999 12 20)
   \<and> next_payment_date (Date 9999 12 20) standard_cds_payment_dates = Inl ValueError"
  by (simp add: next_payment_date.simps anchor_branch_def standard_cds_payment_dates_def
      add_month_def Let_def calendar_eval)

section \<open>Properties of the survival model\<close>



lemma Q_h_scan_affine:
  "Q_h_scan prev (Some h) e st ps acc = Inr v \<Longrightarrow>
   Q_h_scan prev (Some x) e st ps acc = Inr (v + (x - h) * diff_scan e st ps)"
proof (induction ps arbitrary: st acc v)
  case Nil
  then show ?case by simp
next
  case (Cons p ps)
  show ?case
  proof (cases "p < e")
    case True
    then have ne: "\<not> e \<le> p" by simp
    from True Cons.prems obtain w hp where w: "dict_get prev p = Inr w" "py_float w = Inr hp"
      and rec: "Q_h_scan prev (Some h) e p ps (acc + hp * (real_of_int (days_between p st) / 360)) = Inr v"
      by (auto split: sum.splits)
    from Cons.IH [OF rec] True ne w show ?thesis by simp
  next
    case False
    with Cons.prems show ?thesis by (auto simp: py_float_def algebra_simps)
  qed
qed

lemma Q_h_affine:
  assumes "add_days (effective_date mk) (py_int (t * 360)) = Inr e"
    and "Q_h mk t (Some h) prev = Inr q"
  shows "Q_h mk t (Some x) prev
    = Inr (q * exp (- ((x - h) * diff_scan e (effective_date mk) (spread_maturity_dates mk))))"
proof -
  from assms obtain v where v: "Q_h_scan prev (Some h) e (effective_date mk) (spread_maturity_dates mk) 0 = Inr v"
    and q: "q = exp (- v)"
    by (auto simp: Q_h_def split: sum.splits)
  from Q_h_scan_affine [OF v, of x] assms(1) q show ?thesis
    by (simp add: Q_h_def exp_add [symmetric] exp_minus [symmetric] algebra_simps)
qed

lemma Q_h_deriv:
  assumes "add_days (effective_date mk) (py_int (t * 360)) = Inr e"
    and "Q_h mk t (Some h) prev = Inr q"
  shows "((\<lambda>x. q * exp (- ((x - h) * diff_scan e (effective_date mk) (spread_maturity_dates mk))))
    has_real_derivative (- diff_scan e (effective_date mk) (spread_maturity_dates mk) * q)) (at h)"
  by (auto intro!: derivative_eq_intros)





lemma days_between_nonneg:
  "valid_date a \<Longrightarrow> valid_date b \<Longrightarrow> a \<le> b \<Longrightarrow> 0 \<le> days_between b a"
  using toordinal_le_iff [of a b] by (simp add: days_between_def)

lemma days_between_mono:
  "valid_date a \<Longrightarrow> valid_date b \<Longrightarrow> a \<le> b \<Longrightarrow> days_between a c \<le> days_between b c"
  using toordinal_le_iff [of a b] by (simp add: days_between_def)

lemma lookup_rate:
  "dict_get prev p = Inr w \<Longrightarrow> py_float w = Inr x \<Longrightarrow> map_of prev p = Some (Some x)"
  by (auto simp: dict_get_def py_float_def split: option.splits)

lemma Q_h_scan_lower:
  assumes "\<forall>p x. map_of prev p = Some (Some x) \<longrightarrow> 0 \<le> x" "0 \<le> h" "valid_date e"
  shows "Q_h_scan prev (Some h) e st ps acc = Inr v \<Longrightarrow> sorted (st # ps) \<Longrightarrow> valid_date st \<Longrightarrow>
     \<forall>p \<in> set ps. valid_date p \<Longrightarrow> st \<le> e \<Longrightarrow> acc \<le> v"
proof (induction ps arbitrary: st acc)
  case Nil
  then show ?case by simp
next
  case (Cons p ps)
  show ?case
  proof (cases "p < e")
    case True
    with Cons.prems(1) obtain w x where w: "dict_get prev p = Inr w" "py_float w = Inr x"
      and rec: "Q_h_scan prev (Some h) e p ps (acc + x * (real_of_int (days_between p st) / 360)) = Inr v"
      by (auto split: sum.splits)
    from lookup_rate [OF w] assms(1) have x: "0 \<le> x" by blast
    have "0 \<le> days_between p st"
      using Cons.prems by (intro days_between_nonneg) auto
    with x have "0 \<le> x * (real_of_int (days_between p st) / 360)" by simp
    moreover have "acc + x * (real_of_int (days_between p st) / 360) \<le> v"
      using Cons.prems True by (intro Cons.IH [OF rec]) auto
    ultimately show ?thesis by linarith
  next
    case False
    have "0 \<le> days_between e st"
      using Cons.prems assms(3) by (intro days_between_nonneg) auto
    with assms(2) have "0 \<le> h * (real_of_int (days_between e st) / 360)" by simp
    with False Cons.prems(1) show ?thesis by (auto simp: py_float_def)
  qed
qed

lemma Q_h_scan_mono:
  assumes "\<forall>p x. map_of prev p = Some (Some x) \<longrightarrow> 0 \<le> x" "0 \<le> h"
    "valid_date e1" "valid_date e2" "e1 \<le> e2"
  shows "Q_h_scan prev (Some h) e1 st ps acc = Inr v1 \<Longrightarrow>
     Q_h_scan prev (Some h) e2 st ps acc = Inr v2 \<Longrightarrow>
     sorted (st # ps) \<Longrightarrow> valid_date st \<Longrightarrow> \<forall>p \<in> set ps. valid_date p \<Longrightarrow> st \<le> e1 \<Longrightarrow>
     \<forall>p \<in> set ps. e1 \<le> p \<and> p < e2 \<longrightarrow> (\<forall>x. map_of prev p = Some (Some x) \<longrightarrow> h \<le> x) \<Longrightarrow>
     v1 \<le> v2"
proof (induction ps arbitrary: st acc)
  case Nil
  then show ?case by simp
next
  case (Cons p ps)
  have vp: "valid_date p" "st \<le> p" using Cons.prems by auto
  show ?case
  proof (cases "p < e1")
    case True
    with assms(5) have p2: "p < e2" by simp
    from True Cons.prems(1) obtain w x where w: "dict_get prev p = Inr w" "py_float w = Inr x"
      and rec1: "Q_h_scan prev (Some h) e1 p ps (acc + x * (real_of_int (days_between p st) / 360)) = Inr v1"
      by (auto split: sum.splits)
    from p2 Cons.prems(2) w
    have rec2: "Q_h_scan prev (Some h) e2 p ps (acc + x * (real_of_int (days_between p st) / 360)) = Inr v2"
      by simp
    show ?thesis
      using Cons.prems True by (intro Cons.IH [OF rec1 rec2]) auto
  next
    case False
    then have e1p: "e1 \<le> p" by simp
    from False Cons.prems(1) have v1: "v1 = acc + h * (real_of_int (days_between e1 st) / 360)"
      by (auto simp: py_float_def)
    show ?thesis
    proof (cases "p < e2")
      case False
      with Cons.prems(2) have v2: "v2 = acc + h * (real_of_int (days_between e2 st) / 360)"
        by (auto simp: py_float_def)
      have "days_between e1 st \<le> days_between e2 st"
        using assms by (intro days_between_mono)
      with assms(2) show ?thesis by (simp add: v1 v2 mult_left_mono divide_right_mono)
    next
      case True
      with Cons.prems(2) obtain w x where w: "dict_get prev p = Inr w" "py_float w = Inr x"
        and rec2: "Q_h_scan prev (Some h) e2 p ps (acc + x * (real_of_int (days_between p st) / 360)) = Inr v2"
        by (auto split: sum.splits)
      from lookup_rate [OF w] Cons.prems(7) e1p True have hx: "h \<le> x" by auto
      have low: "acc + x * (real_of_int (days_between p st) / 360) \<le> v2"
        using Cons.prems True vp assms
        by (intro Q_h_scan_lower [OF assms(1,2) assms(4) rec2]) auto
      have d: "days_between e1 st \<le> days_between p st"
        using assms(3) vp(1) e1p by (intro days_between_mono)
      have d0: "0 \<le> days_between e1 st"
        using Cons.prems(4,6) assms(3) by (intro days_between_nonneg)
      have "h * (real_of_int (days_between e1 st) / 360) \<le> x * (real_of_int (days_between p st) / 360)"
        using hx d d0 assms(2) by (intro mult_mono) (simp_all add: divide_right_mono)
      with low v1 show ?thesis by linarith
    qed
  qed
qed

lemma py_int_nonneg: "0 \<le> x \<Longrightarrow> 0 \<le> py_int x"
  by (simp add: py_int_def)

lemma py_int_mono: "0 \<le> x \<Longrightarrow> x \<le> y \<Longrightarrow> py_int x \<le> py_int y"
  by (simp add: py_int_def floor_mono)


text \<open>
  C7 (amended). Let the pillar dates be increasing and not before the effective date,
  the solved rates and the candidate rate non-negative, and \<open>0 \<le> t1 \<le> t2\<close>. Whenever
  \<open>Q_h\<close> returns at \<open>t1\<close> and at \<open>t2\<close>, both values lie in [0, 1]; and
  \<open>Q_h(t2, h_i, prev_h) \<le> Q_h(t1, h_i, prev_h)\<close> provided the candidate rate does not
  exceed the solved rate of any pillar passed between the two end dates (at or after the
  first, strictly before the second), in particular whenever no pillar lies between them.
  The lower bound is 0 and not a strict one: the exponential of the reals is never 0,
  but \<open>np.exp\<close> underflows to 0.0 once the integrated hazard is large, so that
  0 is a value the code can return.
\<close>

theorem Q_h_unit_interval_and_monotone:
  assumes "valid_date (effective_date mk)" "\<forall>p \<in> set (spread_maturity_dates mk). valid_date p"
    and "sorted (effective_date mk # spread_maturity_dates mk)"
    and "\<forall>p x. map_of prev_h p = Some (Some x) \<longrightarrow> 0 \<le> x"
    and "0 \<le> h_i" "0 \<le> t1" "t1 \<le> t2"
    and "add_days (effective_date mk) (py_int (t1 * 360)) = Inr e1"
    and "add_days (effective_date mk) (py_int (t2 * 360)) = Inr e2"
    and "Q_h mk t1 (Some h_i) prev_h = Inr q1" "Q_h mk t2 (Some h_i) prev_h = Inr q2"
  shows "0 \<le> q1 \<and> q1 \<le> 1 \<and> 0 \<le> q2 \<and> q2 \<le> 1
    \<and> ((\<forall>p \<in> set (spread_maturity_dates mk). e1 \<le> p \<and> p < e2 \<longrightarrow>
           (\<forall>x. map_of prev_h p = Some (Some x) \<longrightarrow> h_i \<le> x))
        \<longrightarrow> q2 \<le> q1)"
proof -
  let ?eff = "effective_date mk" and ?ps = "spread_maturity_dates mk"
  from assms(8,10) obtain v1 where v1: "Q_h_scan prev_h (Some h_i) e1 ?eff ?ps 0 = Inr v1"
    and q1: "q1 = exp (- v1)"
    by (auto simp: Q_h_def split: sum.splits)
  from assms(9,11) obtain v2 where v2: "Q_h_scan prev_h (Some h_i) e2 ?eff ?ps 0 = Inr v2"
    and q2: "q2 = exp (- v2)"
    by (auto simp: Q_h_def split: sum.splits)
  from add_days_Inr [OF assms(8)] add_days_Inr [OF assms(9)]
  have e: "valid_date e1" "valid_date e2"
    and o: "toordinal e1 = toordinal ?eff + py_int (t1 * 360)"
      "toordinal e2 = toordinal ?eff + py_int (t2 * 360)"
    by simp_all
  have "0 \<le> py_int (t1 * 360)" "py_int (t1 * 360) \<le> py_int (t2 * 360)"
    using assms(6,7) by (simp_all add: py_int_nonneg py_int_mono)
  with o have "toordinal ?eff \<le> toordinal e1" "toordinal e1 \<le> toordinal e2" by simp_all
  with e assms(1) have le: "?eff \<le> e1" "e1 \<le> e2" "?eff \<le> e2"
    by (simp_all add: toordinal_le_iff [symmetric])
  have "0 \<le> v1"
    by (rule Q_h_scan_lower [OF assms(4,5) e(1) v1 assms(3,1,2) le(1)])
  moreover have "0 \<le> v2"
    by (rule Q_h_scan_lower [OF assms(4,5) e(2) v2 assms(3,1,2) le(3)])
  moreover have "v1 \<le> v2"
    if "\<forall>p \<in> set ?ps. e1 \<le> p \<and> p < e2 \<longrightarrow> (\<forall>x. map_of prev_h p = Some (Some x) \<longrightarrow> h_i \<le> x)"
    by (rule Q_h_scan_mono [OF assms(4,5) e le(2) v1 v2 assms(3,1,2) le(1) that])
  ultimately show ?thesis by (simp add: q1 q2)
qed

theorem Q_h_unit_interval_and_monotone_witness:
  "Q_h notebook_market (1 / 2) (Some (19 / 10)) notebook_h_values = Inr (exp (- (19 / 20)))
   \<and> Q_h notebook_market 1 (Some (19 / 10)) notebook_h_values
       = Inr (exp (- (1.906293407117043 * (205 / 360) + 19 / 10 * (155 / 360))))
   \<and> 0 \<le> exp (- (19 / 20) :: real) \<and> exp (- (19 / 20) :: real) \<le> 1
   \<and> exp (- (1.906293407117043 * (205 / 360) + 19 / 10 * (155 / 360)) :: real) \<le> exp (- (19 / 20))"
proof -
  let ?q2 = "exp (- (1.906293407117043 * (205 / 360) + 19 / 10 * (155 / 360)) :: real)"
  have a0: "add_days (Date 2014 3 1) 180 = Inr (Date 2014 8 28)"
    by (rule add_days_eq) (simp_all add: calendar_eval)
  have b0: "add_days (Date 2014 3 1) 360 = Inr (Date 2015 2 24)"
    by (rule add_days_eq) (simp_all add: calendar_eval)
  have a: "add_days (effective_date notebook_market) (py_int (1 / 2 * 360)) = Inr (Date 2014 8 28)"
    using a0 by (simp add: notebook_market_def py_int_def)
  have b: "add_days (effective_date notebook_market) (py_int (1 * 360)) = Inr (Date 2015 2 24)"
    using b0 by (simp add: notebook_market_def py_int_def)
  have q1: "Q_h notebook_market (1 / 2) (Some (19 / 10)) notebook_h_values = Inr (exp (- (19 / 20)))"
    by (simp add: Q_h_def notebook_market_def py_int_def a0 py_float_def calendar_eval)
  have q2: "Q_h notebook_market 1 (Some (19 / 10)) notebook_h_values = Inr ?q2"
    by (simp add: Q_h_def notebook_market_def notebook_h_values_def py_int_def b0 py_float_def
        dict_get_def calendar_eval)
  have v: "valid_date (effective_date notebook_market)"
    "\<forall>p \<in> set (spread_maturity_dates notebook_market). valid_date p"
    "sorted (effective_date notebook_market # spread_maturity_dates notebook_market)"
    by (simp_all add: notebook_market_def calendar_eval)
  have n: "\<forall>p x. map_of notebook_h_values p = Some (Some x) \<longrightarrow> 0 \<le> x"
    by (auto simp: notebook_h_values_def split: if_splits)
  have c: "\<forall>p \<in> set (spread_maturity_dates notebook_market). Date 2014 8 28 \<le> p \<and> p < Date 2015 2 24 \<longrightarrow>
           (\<forall>x. map_of notebook_h_values p = Some (Some x) \<longrightarrow> 19 / 10 \<le> x)"
    by (simp add: notebook_market_def notebook_h_values_def less_date_def less_eq_date_def)
  from Q_h_unit_interval_and_monotone [OF v n _ _ _ a b q1 q2] c
  have "0 \<le> exp (- (19 / 20) :: real) \<and> exp (- (19 / 20) :: real) \<le> 1 \<and> ?q2 \<le> exp (- (19 / 20))"
    by simp
  with q1 q2 show ?thesis by blast
qed

text \<open>
  As stated, for every candidate rate, the monotonicity fails: \<open>Q_h\<close> charges the
  candidate rate over the whole interval that the end date falls in. With the rates the
  notebook calibrated and the second pillar's rate as the candidate, the value one day
  after the first pillar is larger than the value on the first pillar.
\<close>

theorem Q_h_increases_across_pillar:
  "Q_h notebook_market (205 / 360) (Some 1.953364459804524) notebook_h_values
     = Inr (exp (- (1.953364459804524 * (205 / 360))))
   \<and> Q_h notebook_market (206 / 360) (Some 1.953364459804524) notebook_h_values
     = Inr (exp (- (1.906293407117043 * (205 / 360) + 1.953364459804524 * (1 / 360))))
   \<and> exp (- (1.953364459804524 * (205 / 360)) :: real)
     < exp (- (1.906293407117043 * (205 / 360) + 1.953364459804524 * (1 / 360)))"
proof -
  have a0: "add_days (Date 2014 3 1) 205 = Inr (Date 2014 9 22)"
    by (rule add_days_eq) (simp_all add: calendar_eval)
  have b0: "add_days (Date 2014 3 1) 206 = Inr (Date 2014 9 23)"
    by (rule add_days_eq) (simp_all add: calendar_eval)
  have 1: "Q_h notebook_market (205 / 360) (Some 1.953364459804524) notebook_h_values
     = Inr (exp (- (1.953364459804524 * (205 / 360))))"
    by (simp add: Q_h_def notebook_market_def notebook_h_values_def py_int_def a0 py_float_def
        dict_get_def calendar_eval)
  have 2: "Q_h notebook_market (206 / 360) (Some 1.953364459804524) notebook_h_values
     = Inr (exp (- (1.906293407117043 * (205 / 360) + 1.953364459804524 * (1 / 360))))"
    by (simp add: Q_h_def notebook_market_def notebook_h_values_def py_int_def b0 py_float_def
        dict_get_def calendar_eval)
  have 3: "exp (- (1.953364459804524 * (205 / 360)) :: real)
     < exp (- (1.906293407117043 * (205 / 360) + 1.953364459804524 * (1 / 360)))"
    by simp
  from 1 2 3 show ?thesis by blast
qed

section \<open>Properties of the valuation engine\<close>

text \<open>
  The two legs as sums over any survival function. \<open>protection_leg\<close> is the sum the
  for loop accumulates, over the code's own \<open>K\<close> and \<open>s\<close>; \<open>premium_leg\<close> is the
  sum over the coupon periods of the payment schedule. The survival function of the
  valuation is the value \<open>Q_h\<close> returns (0 stands in where it raises; the theorems
  show it returns at every time the legs use).
\<close>

definition Q_h_value :: "market \<Rightarrow> real option \<Rightarrow> hazard_map \<Rightarrow> real \<Rightarrow> real" where
  "Q_h_value mk h_i prev_h t = (case Q_h mk t h_i prev_h of Inl e \<Rightarrow> 0 | Inr q \<Rightarrow> q)"

definition diff_Q_h_value :: "market \<Rightarrow> real option \<Rightarrow> hazard_map \<Rightarrow> real \<Rightarrow> real" where
  "diff_Q_h_value mk h_i prev_h t = (case diff_Q_h mk t h_i prev_h of Inl e \<Rightarrow> 0 | Inr q \<Rightarrow> q)"

definition protection_leg :: "(real \<Rightarrow> real) \<Rightarrow> real \<Rightarrow> real" where
  "protection_leg survival T =
     (\<Sum>k = 0..<nat (K T 12).
        (Z (s (real k) T 12) + Z (s (real (k + 1)) T 12))
        * (survival (s (real k) T 12) - survival (s (real (k + 1)) T 12)))"

text \<open>
  The coupon periods \<open>(period_start, period_end)\<close> that end on or before the maturity
  date, each period ending on the payment date after the one before.
\<close>

function payment_periods :: "date list \<Rightarrow> date \<Rightarrow> date \<Rightarrow> date \<Rightarrow> (date \<times> date) list" where
  "payment_periods payment_dates maturity_date period_start period_end =
     (if period_end \<le> maturity_date
      then (period_start, period_end) #
           (case next_payment_date period_end payment_dates of
              Inl e \<Rightarrow> []
            | Inr following \<Rightarrow> payment_periods payment_dates maturity_date period_end following)
      else [])"
  by pat_completeness auto
termination
  by (relation "measure (\<lambda>(pds, mat, cur, nxt). days_left nxt)") (auto simp: days_left_decreases)

declare payment_periods.simps [simp del]

definition payment_schedule :: "market \<Rightarrow> date list \<Rightarrow> date \<Rightarrow> (date \<times> date) list" where
  "payment_schedule mk payment_dates maturity_date =
     (case next_payment_date (effective_date mk) payment_dates of
        Inl e \<Rightarrow> []
      | Inr first \<Rightarrow> payment_periods payment_dates maturity_date (effective_date mk) first)"

definition year_fraction :: "market \<Rightarrow> date \<Rightarrow> real" where
  "year_fraction mk d = real_of_int (days_between d (effective_date mk)) / 360"

definition premium_leg :: "market \<Rightarrow> (real \<Rightarrow> real) \<Rightarrow> (date \<times> date) list \<Rightarrow> real" where
  "premium_leg mk survival periods =
     (\<Sum>(period_start, period_end) \<leftarrow> periods.
        real_of_int (days_between period_end period_start) / 360
        * Z (year_fraction mk period_end)
        * (survival (year_fraction mk period_start) + survival (year_fraction mk period_end)))"

text \<open>
  The protection leg in the spec's words, with nothing taken from the code's \<open>K\<close> and
  \<open>s\<close>: the interval \<open>[0, T]\<close> is cut into \<open>ceil(12 T)\<close> subintervals of equal length,
  so the points of the partition are \<open>k T / ceil(12 T)\<close>, and each subinterval adds the
  sum of the discount factors at its two ends times the drop of the survival function
  across it.
\<close>

definition spec_subintervals :: "real \<Rightarrow> nat" where
  "spec_subintervals T = nat \<lceil>12 * T\<rceil>"

definition spec_partition_point :: "real \<Rightarrow> nat \<Rightarrow> real" where
  "spec_partition_point T k = real k * (T / real (spec_subintervals T))"


text \<open>
  The points of the spec cut \<open>[0, T]\<close> into equal parts, and they are the points the
  code computes.
\<close>

lemma spec_partition_equal:
  assumes "0 < spec_subintervals T"
  shows "spec_partition_point T 0 = 0" "spec_partition_point T (spec_subintervals T) = T"
    "spec_partition_point T (k + 1) - spec_partition_point T k = T / real (spec_subintervals T)"
  using assms by (simp_all add: spec_partition_point_def algebra_simps add_divide_distrib)



lemma Q_h_scan_returns:
  "\<forall>p \<in> set ps. p < e \<longrightarrow> (\<exists>x. map_of prev p = Some (Some x)) \<Longrightarrow>
   \<exists>v. Q_h_scan prev (Some h) e st ps acc = Inr v"
proof (induction ps arbitrary: st acc)
  case Nil
  show ?case by simp
next
  case (Cons p ps)
  show ?case
  proof (cases "p < e")
    case True
    with Cons.prems obtain x where "map_of prev p = Some (Some x)" by auto
    with True Cons.IH [of p "acc + x * (real_of_int (days_between p st) / 360)"] Cons.prems
    show ?thesis by (simp add: dict_get_def py_float_def)
  next
    case False
    then show ?thesis by (simp add: py_float_def)
  qed
qed

lemma end_date_in_range:
  assumes "valid_date eff" "valid_date mat" "0 \<le> t" "t \<le> real_of_int (days_between mat eff) / 360"
  shows "\<exists>e. add_days eff (py_int (t * 360)) = Inr e \<and> e \<le> mat"
proof -
  let ?n = "py_int (t * 360)"
  have n: "0 \<le> ?n" "?n \<le> days_between mat eff"
    using assms(3,4) by (simp_all add: py_int_def floor_le_iff le_floor_iff)
  with toordinal_range [OF assms(1)] toordinal_range [OF assms(2)]
  have rng: "1 \<le> toordinal eff + ?n" "toordinal eff + ?n \<le> MAXORDINAL"
    "toordinal eff + ?n \<le> toordinal mat"
    by (simp_all add: days_between_def)
  then have a: "add_days eff ?n = Inr (fromordinal (toordinal eff + ?n))"
    by (simp add: add_days_def Let_def)
  from fromordinal_sound [OF rng(1,2)] rng(3) assms(2)
  have "fromordinal (toordinal eff + ?n) \<le> mat"
    by (simp add: toordinal_le_iff [symmetric])
  with a show ?thesis by simp
qed


lemma Q_h_returns:
  assumes "valid_date (effective_date mk)" "valid_date mat"
    and "\<forall>p \<in> set (spread_maturity_dates mk). p < mat \<longrightarrow> (\<exists>x. map_of prev p = Some (Some x))"
    and "0 \<le> t" "t \<le> real_of_int (days_between mat (effective_date mk)) / 360"
  shows "\<exists>q. Q_h mk t (Some h) prev = Inr q"
proof -
  from end_date_in_range [OF assms(1,2,4,5)] obtain e
    where e: "add_days (effective_date mk) (py_int (t * 360)) = Inr e" "e \<le> mat" by blast
  have "\<forall>p \<in> set (spread_maturity_dates mk). p < e \<longrightarrow> (\<exists>x. map_of prev p = Some (Some x))"
    using assms(3) e(2) by auto
  from Q_h_scan_returns [OF this, of h "effective_date mk" 0] e(1) show ?thesis
    by (auto simp: Q_h_def)
qed

lemma diff_Q_h_returns:
  "Q_h mk t h prev = Inr q \<Longrightarrow> \<exists>dq. diff_Q_h mk t h prev = Inr dq"
  by (auto simp: diff_Q_h_def Q_h_def Let_def split: sum.splits)

lemma subinterval_in_range:
  assumes "k \<le> nat (K T 12)" "0 < nat (K T 12)"
  shows "0 \<le> s (real k) T 12 \<and> s (real k) T 12 \<le> T"
proof -
  let ?K = "real_of_int (K T 12)"
  from assms(2) have K1: "1 \<le> K T 12" by simp
  then have Kp: "0 < ?K" by simp
  from K1 have "0 < 12 * T" unfolding K_def by (simp add: less_ceiling_iff)
  then have T: "0 < T" by simp
  from assms(1) K1 have "int k \<le> K T 12" by simp
  then have "real_of_int (int k) \<le> ?K" by (simp only: of_int_le_iff)
  then have "real k \<le> ?K" by simp
  with T have "real k * T \<le> ?K * T" by (simp add: mult_right_mono)
  with Kp have "real k * T / ?K \<le> T" by (simp add: pos_divide_le_eq mult.commute)
  moreover have "0 \<le> real k * T / ?K" using T Kp by simp
  ultimately show ?thesis by (simp add: s_def)
qed

lemma protection_loop_sum:
  assumes "\<forall>k \<in> set ks. (\<exists>q. Q_h mk (s (real k) T 12) h prev = Inr q)
      \<and> (\<exists>q. Q_h mk (s (real (k + 1)) T 12) h prev = Inr q)"
  shows "protection_loop mk h prev T ks b =
    Inr (b + (\<Sum>k\<leftarrow>ks. (Z (s (real k) T 12) + Z (s (real (k + 1)) T 12))
               * (Q_h_value mk h prev (s (real k) T 12) - Q_h_value mk h prev (s (real (k + 1)) T 12))))"
  using assms
proof (induction ks arbitrary: b)
  case Nil
  show ?case by simp
next
  case (Cons k ks)
  from Cons.prems obtain q1 q2 where q: "Q_h mk (s (real k) T 12) h prev = Inr q1"
    "Q_h mk (s (real (k + 1)) T 12) h prev = Inr q2" by auto
  have "\<forall>k \<in> set ks. (\<exists>q. Q_h mk (s (real k) T 12) h prev = Inr q)
      \<and> (\<exists>q. Q_h mk (s (real (k + 1)) T 12) h prev = Inr q)"
    using Cons.prems by simp
  from Cons.IH [OF this] q show ?case
    by (simp add: Q_h_value_def algebra_simps)
qed

lemma d_protection_loop_sum:
  assumes "\<forall>k \<in> set ks. (\<exists>q. diff_Q_h mk (s (real k) T 12) h prev = Inr q)
      \<and> (\<exists>q. diff_Q_h mk (s (real (k + 1)) T 12) h prev = Inr q)"
  shows "d_protection_loop mk h prev T ks b =
    Inr (b + (\<Sum>k\<leftarrow>ks. (Z (s (real k) T 12) + Z (s (real (k + 1)) T 12))
               * (diff_Q_h_value mk h prev (s (real k) T 12)
                  - diff_Q_h_value mk h prev (s (real (k + 1)) T 12))))"
  using assms
proof (induction ks arbitrary: b)
  case Nil
  show ?case by simp
next
  case (Cons k ks)
  from Cons.prems obtain q1 q2 where q: "diff_Q_h mk (s (real k) T 12) h prev = Inr q1"
    "diff_Q_h mk (s (real (k + 1)) T 12) h prev = Inr q2" by auto
  have "\<forall>k \<in> set ks. (\<exists>q. diff_Q_h mk (s (real k) T 12) h prev = Inr q)
      \<and> (\<exists>q. diff_Q_h mk (s (real (k + 1)) T 12) h prev = Inr q)"
    using Cons.prems by simp
  from Cons.IH [OF this] q show ?case
    by (simp add: diff_Q_h_value_def algebra_simps)
qed


lemma premium_loop_sum:
  "(\<And>x. valid_date x \<Longrightarrow> effective_date mk \<le> x \<Longrightarrow> x \<le> mat \<Longrightarrow>
      \<exists>q. Q_h mk (year_fraction mk x) h prev = Inr q) \<Longrightarrow>
   (\<And>x. valid_date x \<Longrightarrow> x \<le> mat \<Longrightarrow> \<exists>n. next_payment_date x pds = Inr n) \<Longrightarrow>
   valid_date cur \<Longrightarrow> effective_date mk \<le> cur \<Longrightarrow> cur < nxt \<Longrightarrow> valid_date nxt \<Longrightarrow>
   premium_loop mk h prev pds mat cur nxt d =
     Inr (d + premium_leg mk (Q_h_value mk h prev) (payment_periods pds mat cur nxt))"
proof (induction mk h prev pds mat cur nxt d rule: premium_loop.induct)
  case (1 mk h prev pds mat cur nxt d)
  show ?case
  proof (cases "nxt \<le> mat")
    case False
    then show ?thesis
      by (subst premium_loop.simps, subst payment_periods.simps) (simp add: premium_leg_def)
  next
    case True
    from "1.prems"(5) have cn: "cur \<le> nxt" by simp
    with True have cm: "cur \<le> mat" by simp
    from "1.prems"(1) [OF "1.prems"(3,4) cm] obtain q1
      where q1: "Q_h mk (real_of_int (days_between cur (effective_date mk)) / 360) h prev = Inr q1"
      by (auto simp: year_fraction_def)
    have en: "effective_date mk \<le> nxt" using "1.prems"(4) cn by simp
    from "1.prems"(1) [OF "1.prems"(6) en True] obtain q2
      where q2: "Q_h mk (real_of_int (days_between nxt (effective_date mk)) / 360) h prev = Inr q2"
      by (auto simp: year_fraction_def)
    from "1.prems"(2) [OF "1.prems"(6) True] obtain following
      where f: "next_payment_date nxt pds = Inr following" by blast
    from next_payment_date_later [OF f] have fl: "nxt < following" "valid_date following" by simp_all
    define coupon where "coupon = real_of_int (days_between nxt cur) / 360
      * Z (real_of_int (days_between nxt (effective_date mk)) / 360) * (q1 + q2)"
    have ih: "premium_loop mk h prev pds mat nxt following (d + coupon)
      = Inr (d + coupon + premium_leg mk (Q_h_value mk h prev) (payment_periods pds mat nxt following))"
      unfolding coupon_def using "1.prems"(1,2)
      by (intro "1.IH" [OF True refl refl refl q1 q2 f] "1.prems"(6) en fl) auto
    have pp: "payment_periods pds mat cur nxt = (cur, nxt) # payment_periods pds mat nxt following"
      using True f by (subst payment_periods.simps) simp
    have leg: "premium_leg mk (Q_h_value mk h prev) (payment_periods pds mat cur nxt)
      = coupon + premium_leg mk (Q_h_value mk h prev) (payment_periods pds mat nxt following)"
      unfolding pp coupon_def by (simp add: premium_leg_def Q_h_value_def year_fraction_def q1 q2)
    have "premium_loop mk h prev pds mat cur nxt d = premium_loop mk h prev pds mat nxt following (d + coupon)"
      unfolding coupon_def using True q1 q2 f by (subst premium_loop.simps) (simp add: Let_def)
    with ih leg show ?thesis by (simp add: add.assoc)
  qed
qed

lemma d_premium_loop_sum:
  "(\<And>x. valid_date x \<Longrightarrow> effective_date mk \<le> x \<Longrightarrow> x \<le> mat \<Longrightarrow>
      \<exists>q. diff_Q_h mk (year_fraction mk x) h prev = Inr q) \<Longrightarrow>
   (\<And>x. valid_date x \<Longrightarrow> x \<le> mat \<Longrightarrow> \<exists>n. next_payment_date x pds = Inr n) \<Longrightarrow>
   valid_date cur \<Longrightarrow> effective_date mk \<le> cur \<Longrightarrow> cur < nxt \<Longrightarrow> valid_date nxt \<Longrightarrow>
   d_premium_loop mk h prev pds mat cur nxt d =
     Inr (d + premium_leg mk (diff_Q_h_value mk h prev) (payment_periods pds mat cur nxt))"
proof (induction mk h prev pds mat cur nxt d rule: d_premium_loop.induct)
  case (1 mk h prev pds mat cur nxt d)
  show ?case
  proof (cases "nxt \<le> mat")
    case False
    then show ?thesis
      by (subst d_premium_loop.simps, subst payment_periods.simps) (simp add: premium_leg_def)
  next
    case True
    from "1.prems"(5) have cn: "cur \<le> nxt" by simp
    with True have cm: "cur \<le> mat" by simp
    from "1.prems"(1) [OF "1.prems"(3,4) cm] obtain q1
      where q1: "diff_Q_h mk (real_of_int (days_between cur (effective_date mk)) / 360) h prev = Inr q1"
      by (auto simp: year_fraction_def)
    have en: "effective_date mk \<le> nxt" using "1.prems"(4) cn by simp
    from "1.prems"(1) [OF "1.prems"(6) en True] obtain q2
      where q2: "diff_Q_h mk (real_of_int (days_between nxt (effective_date mk)) / 360) h prev = Inr q2"
      by (auto simp: year_fraction_def)
    from "1.prems"(2) [OF "1.prems"(6) True] obtain following
      where f: "next_payment_date nxt pds = Inr following" by blast
    from next_payment_date_later [OF f] have fl: "nxt < following" "valid_date following" by simp_all
    define coupon where "coupon = real_of_int (days_between nxt cur) / 360
      * Z (real_of_int (days_between nxt (effective_date mk)) / 360) * (q1 + q2)"
    have ih: "d_premium_loop mk h prev pds mat nxt following (d + coupon)
      = Inr (d + coupon + premium_leg mk (diff_Q_h_value mk h prev) (payment_periods pds mat nxt following))"
      unfolding coupon_def using "1.prems"(1,2)
      by (intro "1.IH" [OF True refl refl refl q1 q2 f] "1.prems"(6) en fl) auto
    have pp: "payment_periods pds mat cur nxt = (cur, nxt) # payment_periods pds mat nxt following"
      using True f by (subst payment_periods.simps) simp
    have leg: "premium_leg mk (diff_Q_h_value mk h prev) (payment_periods pds mat cur nxt)
      = coupon + premium_leg mk (diff_Q_h_value mk h prev) (payment_periods pds mat nxt following)"
      unfolding pp coupon_def by (simp add: premium_leg_def diff_Q_h_value_def year_fraction_def q1 q2)
    have "d_premium_loop mk h prev pds mat cur nxt d = d_premium_loop mk h prev pds mat nxt following (d + coupon)"
      unfolding coupon_def using True q1 q2 f by (subst d_premium_loop.simps) (simp add: Let_def)
    with ih leg show ?thesis by (simp add: add.assoc)
  qed
qed



lemma year_fraction_in_range:
  assumes "valid_date (effective_date mk)" "valid_date mat" "valid_date x"
    "effective_date mk \<le> x" "x \<le> mat"
  shows "0 \<le> year_fraction mk x \<and> year_fraction mk x \<le> year_fraction mk mat"
  using assms toordinal_le_iff [of "effective_date mk" x] toordinal_le_iff [of x mat]
  by (simp add: year_fraction_def days_between_def divide_right_mono)

lemma cycle_returns:
  assumes "pds = standard_cds_payment_dates \<or> pds = nonstandard_cds_payment_dates"
    "valid_date x" "x \<le> mat" "year mat < 9999"
  shows "\<exists>n. next_payment_date x pds = Inr n"
proof -
  from assms(3) have "year x \<le> year mat" by (auto simp: less_eq_date_def)
  with assms(4) have "year x < 9999" by simp
  with assms(1,2) standard_cycle_returns [of x] nonstandard_cycle_returns [of x]
  show ?thesis by blast
qed

lemma sum_list_upt: "(\<Sum>k\<leftarrow>[0..<n]. g k) = (\<Sum>k = 0..<n. g k)" for g :: "nat \<Rightarrow> real"
  by (simp add: interv_sum_list_conv_sum_set_nat)

lemma subintervals_return:
  assumes "\<And>t. 0 \<le> t \<Longrightarrow> t \<le> T \<Longrightarrow> \<exists>q. P t q"
  shows "\<forall>k \<in> set [0..<nat (K T 12)]. (\<exists>q. P (s (real k) T 12) q) \<and> (\<exists>q. P (s (real (k + 1)) T 12) q)"
proof
  fix k assume "k \<in> set [0..<nat (K T 12)]"
  then have k: "k < nat (K T 12)" by simp
  then have "k \<le> nat (K T 12)" "k + 1 \<le> nat (K T 12)" "0 < nat (K T 12)" by simp_all
  from subinterval_in_range [OF this(1,3)] subinterval_in_range [OF this(2,3)] assms
  show "(\<exists>q. P (s (real k) T 12) q) \<and> (\<exists>q. P (s (real (k + 1)) T 12) q)" by blast
qed

lemma py_index_spread:
  "i < length xs \<Longrightarrow> py_index (map snd xs) i = Inr (snd (xs ! i))"
  by (simp add: py_index_def)

lemma standard_value:
  assumes "valid_date (effective_date mk)" "valid_date mat" "effective_date mk \<le> mat"
    and "year mat < 9999"
    and "list_index (spread_maturity_dates mk) mat = Inr i" "i < length (spread_data mk)"
    and "\<forall>p \<in> set (spread_maturity_dates mk). p < mat \<longrightarrow> (\<exists>x. map_of prev p = Some (Some x))"
    and "pds = standard_cds_payment_dates \<or> pds = nonstandard_cds_payment_dates"
  shows "standard_cds_mtm_value mk (Some h) mat prev pds R
    = Inr ((1 - R) * 50 * protection_leg (Q_h_value mk (Some h) prev) (year_fraction mk mat)
           - 0.5 * snd (spread_data mk ! i)
             * premium_leg mk (Q_h_value mk (Some h) prev) (payment_schedule mk pds mat))"
proof -
  let ?T = "year_fraction mk mat" and ?eff = "effective_date mk"
  have surv: "\<exists>q. Q_h mk t (Some h) prev = Inr q" if "0 \<le> t" "t \<le> ?T" for t
    using that Q_h_returns [OF assms(1,2,7), of t h] by (simp add: year_fraction_def)
  have prot: "protection_loop mk (Some h) prev ?T [0..<nat (K ?T 12)] 0
      = Inr (protection_leg (Q_h_value mk (Some h) prev) ?T)"
    using protection_loop_sum [OF subintervals_return [of ?T "\<lambda>t q. Q_h mk t (Some h) prev = Inr q"], of 0]
      surv by (simp add: protection_leg_def sum_list_upt)
  have sched: "\<exists>n. next_payment_date x pds = Inr n" if "valid_date x" "x \<le> mat" for x
    using cycle_returns [OF assms(8) that assms(4)] .
  from sched [OF assms(1,3)] obtain first where first: "next_payment_date ?eff pds = Inr first"
    by blast
  from next_payment_date_later [OF first] have fl: "?eff < first" "valid_date first" by simp_all
  have surv_d: "\<exists>q. Q_h mk (year_fraction mk x) (Some h) prev = Inr q"
    if "valid_date x" "?eff \<le> x" "x \<le> mat" for x
    using year_fraction_in_range [OF assms(1,2) that] surv by blast
  have prem: "premium_loop mk (Some h) prev pds mat ?eff first 0
      = Inr (premium_leg mk (Q_h_value mk (Some h) prev) (payment_schedule mk pds mat))"
    using premium_loop_sum [of mk mat "Some h" prev pds ?eff first 0] surv_d sched assms(1) fl
    by (simp add: payment_schedule_def first)
  show ?thesis
    using prot prem first assms(5) py_index_spread [OF assms(6)]
    by (simp add: standard_cds_mtm_value_def Let_def year_fraction_def)
qed

lemma d_standard_value:
  assumes "valid_date (effective_date mk)" "valid_date mat" "effective_date mk \<le> mat"
    and "year mat < 9999"
    and "list_index (spread_maturity_dates mk) mat = Inr i" "i < length (spread_data mk)"
    and "\<forall>p \<in> set (spread_maturity_dates mk). p < mat \<longrightarrow> (\<exists>x. map_of prev p = Some (Some x))"
    and "pds = standard_cds_payment_dates \<or> pds = nonstandard_cds_payment_dates"
  shows "d_standard_cds_mtm_value mk (Some h) mat prev pds R
    = Inr ((1 - R) * 50 * protection_leg (diff_Q_h_value mk (Some h) prev) (year_fraction mk mat)
           - 0.5 * snd (spread_data mk ! i)
             * premium_leg mk (diff_Q_h_value mk (Some h) prev) (payment_schedule mk pds mat))"
proof -
  let ?T = "year_fraction mk mat" and ?eff = "effective_date mk"
  have surv: "\<exists>q. diff_Q_h mk t (Some h) prev = Inr q" if "0 \<le> t" "t \<le> ?T" for t
    using that Q_h_returns [OF assms(1,2,7), of t h] diff_Q_h_returns [of mk t "Some h" prev]
    by (auto simp: year_fraction_def)
  have prot: "d_protection_loop mk (Some h) prev ?T [0..<nat (K ?T 12)] 0
      = Inr (protection_leg (diff_Q_h_value mk (Some h) prev) ?T)"
    using d_protection_loop_sum [OF subintervals_return [of ?T "\<lambda>t q. diff_Q_h mk t (Some h) prev = Inr q"], of 0]
      surv by (simp add: protection_leg_def sum_list_upt)
  have sched: "\<exists>n. next_payment_date x pds = Inr n" if "valid_date x" "x \<le> mat" for x
    using cycle_returns [OF assms(8) that assms(4)] .
  from sched [OF assms(1,3)] obtain first where first: "next_payment_date ?eff pds = Inr first"
    by blast
  from next_payment_date_later [OF first] have fl: "?eff < first" "valid_date first" by simp_all
  have surv_d: "\<exists>q. diff_Q_h mk (year_fraction mk x) (Some h) prev = Inr q"
    if "valid_date x" "?eff \<le> x" "x \<le> mat" for x
    using year_fraction_in_range [OF assms(1,2) that] surv by blast
  have prem: "d_premium_loop mk (Some h) prev pds mat ?eff first 0
      = Inr (premium_leg mk (diff_Q_h_value mk (Some h) prev) (payment_schedule mk pds mat))"
    using d_premium_loop_sum [of mk mat "Some h" prev pds ?eff first 0] surv_d sched assms(1) fl
    by (simp add: payment_schedule_def first)
  show ?thesis
    using prot prem first assms(5) py_index_spread [OF assms(6)]
    by (simp add: d_standard_cds_mtm_value_def Let_def year_fraction_def)
qed



lemma notebook_schedule:
  "payment_schedule notebook_market standard_cds_payment_dates (Date 2014 9 22)
     = [(Date 2014 3 1, Date 2014 3 20), (Date 2014 3 20, Date 2014 6 20),
        (Date 2014 6 20, Date 2014 9 22)]"
proof -
  have a: "add_days (Date 2014 9 20) 2 = Inr (Date 2014 9 22)"
    "add_days (Date 2014 12 20) 2 = Inr (Date 2014 12 22)"
    by (rule add_days_eq, simp_all add: calendar_eval)+
  have n: "next_payment_date (Date 2014 3 1) standard_cds_payment_dates = Inr (Date 2014 3 20)"
    "next_payment_date (Date 2014 3 20) standard_cds_payment_dates = Inr (Date 2014 6 20)"
    "next_payment_date (Date 2014 6 20) standard_cds_payment_dates = Inr (Date 2014 9 22)"
    "next_payment_date (Date 2014 9 22) standard_cds_payment_dates = Inr (Date 2014 12 22)"
    by (simp_all add: next_payment_date.simps anchor_branch_def standard_cds_payment_dates_def
        add_month_def Let_def a calendar_eval)
  show ?thesis
    by (simp add: payment_schedule_def notebook_market_def payment_periods.simps n less_eq_date_def)
qed


lemma Q_h_value_deriv:
  assumes "Q_h mk t (Some h) prev = Inr q"
  shows "((\<lambda>x. Q_h_value mk (Some x) prev t) has_real_derivative diff_Q_h_value mk (Some h) prev t) (at h)"
proof -
  from assms obtain e where e: "add_days (effective_date mk) (py_int (t * 360)) = Inr e"
    by (auto simp: Q_h_def split: sum.splits)
  let ?D = "diff_scan e (effective_date mk) (spread_maturity_dates mk)"
  have "(\<lambda>x. Q_h_value mk (Some x) prev t) = (\<lambda>x. q * exp (- ((x - h) * ?D)))"
    by (rule ext) (simp add: Q_h_value_def Q_h_affine [OF e assms])
  moreover have "diff_Q_h_value mk (Some h) prev t = - ?D * q"
    using e assms by (simp add: diff_Q_h_value_def diff_Q_h_def)
  ultimately show ?thesis using Q_h_deriv [OF e assms] by simp
qed

lemma protection_leg_deriv:
  assumes "\<And>k. k \<le> nat (K T 12) \<Longrightarrow> 0 < nat (K T 12) \<Longrightarrow>
     ((\<lambda>x. q x (s (real k) T 12)) has_real_derivative dq (s (real k) T 12)) (at h)"
  shows "((\<lambda>x. protection_leg (q x) T) has_real_derivative protection_leg dq T) (at h)"
  unfolding protection_leg_def
proof (rule DERIV_sum)
  fix k assume "k \<in> {0..<nat (K T 12)}"
  then have k: "k \<le> nat (K T 12)" "k + 1 \<le> nat (K T 12)" "0 < nat (K T 12)" by simp_all
  show "((\<lambda>x. (Z (s (real k) T 12) + Z (s (real (k + 1)) T 12))
        * (q x (s (real k) T 12) - q x (s (real (k + 1)) T 12)))
     has_real_derivative (Z (s (real k) T 12) + Z (s (real (k + 1)) T 12))
        * (dq (s (real k) T 12) - dq (s (real (k + 1)) T 12))) (at h)"
    by (intro DERIV_cmult DERIV_diff assms k)
qed

lemma premium_leg_deriv:
  assumes "\<And>a b. (a, b) \<in> set periods \<Longrightarrow>
     ((\<lambda>x. q x (year_fraction mk a)) has_real_derivative dq (year_fraction mk a)) (at h)
     \<and> ((\<lambda>x. q x (year_fraction mk b)) has_real_derivative dq (year_fraction mk b)) (at h)"
  shows "((\<lambda>x. premium_leg mk (q x) periods) has_real_derivative premium_leg mk dq periods) (at h)"
  using assms
proof (induction periods)
  case Nil
  show ?case by (simp add: premium_leg_def)
next
  case (Cons ab periods)
  obtain a b where ab: "ab = (a, b)" by (cases ab)
  from Cons.prems [of a b] ab
  have d: "((\<lambda>x. q x (year_fraction mk a)) has_real_derivative dq (year_fraction mk a)) (at h)"
    "((\<lambda>x. q x (year_fraction mk b)) has_real_derivative dq (year_fraction mk b)) (at h)"
    by simp_all
  have rest: "((\<lambda>x. premium_leg mk (q x) periods) has_real_derivative premium_leg mk dq periods) (at h)"
  proof (rule Cons.IH)
    fix a' b' assume "(a', b') \<in> set periods"
    then show "((\<lambda>x. q x (year_fraction mk a')) has_real_derivative dq (year_fraction mk a')) (at h)
     \<and> ((\<lambda>x. q x (year_fraction mk b')) has_real_derivative dq (year_fraction mk b')) (at h)"
      using Cons.prems [of a' b'] by simp
  qed
  have "((\<lambda>x. real_of_int (days_between b a) / 360 * Z (year_fraction mk b)
          * (q x (year_fraction mk a) + q x (year_fraction mk b)) + premium_leg mk (q x) periods)
      has_real_derivative real_of_int (days_between b a) / 360 * Z (year_fraction mk b)
          * (dq (year_fraction mk a) + dq (year_fraction mk b)) + premium_leg mk dq periods) (at h)"
    by (intro DERIV_add DERIV_cmult d rest)
  then show ?case by (simp add: premium_leg_def ab)
qed

lemma payment_periods_dates:
  "(a, b) \<in> set (payment_periods pds mat cur nxt) \<Longrightarrow> valid_date cur \<Longrightarrow> eff \<le> cur \<Longrightarrow>
   cur < nxt \<Longrightarrow> valid_date nxt \<Longrightarrow>
   valid_date a \<and> valid_date b \<and> eff \<le> a \<and> eff \<le> b \<and> a \<le> mat \<and> b \<le> mat"
proof (induction pds mat cur nxt rule: payment_periods.induct)
  case (1 pds mat cur nxt)
  show ?case
  proof (cases "nxt \<le> mat")
    case False
    with "1.prems"(1) show ?thesis by (subst (asm) payment_periods.simps) simp
  next
    case True
    show ?thesis
    proof (cases "next_payment_date nxt pds")
      case (Inl e)
      with True "1.prems"(1) have "(a, b) = (cur, nxt)"
        by (subst (asm) payment_periods.simps) simp
      with True "1.prems" show ?thesis by auto
    next
      case (Inr following)
      with True "1.prems"(1)
      have "(a, b) = (cur, nxt) \<or> (a, b) \<in> set (payment_periods pds mat nxt following)"
        by (subst (asm) payment_periods.simps) simp
      then show ?thesis
      proof
        assume "(a, b) = (cur, nxt)"
        with True "1.prems" show ?thesis by auto
      next
        assume m: "(a, b) \<in> set (payment_periods pds mat nxt following)"
        from next_payment_date_later [OF Inr] have "nxt < following" "valid_date following" by simp_all
        moreover have "eff \<le> nxt" using "1.prems"(3,4) by simp
        ultimately show ?thesis
          using "1.prems"(5) by (intro "1.IH" [OF True Inr m]) auto
      qed
    qed
  qed
qed


text \<open>
  C6. Under the same conditions, \<open>d_standard_cds_mtm_value\<close> returns the two legs of
  \<open>standard_cds_mtm_value\<close> with \<open>diff_Q_h\<close> in the place of every \<open>Q_h\<close>: the same
  subintervals, discount factors, schedule and day counts. \<open>standard_cds_mtm_value\<close>
  returns for every candidate rate, and as a function of the candidate rate its
  derivative at \<open>h_i\<close> is what \<open>d_standard_cds_mtm_value\<close> returns there.
\<close>

theorem d_standard_cds_mtm_value_is_derivative:
  assumes "valid_date (effective_date mk)" "valid_date maturity_date"
    and "effective_date mk \<le> maturity_date" "year maturity_date < 9999"
    and "list_index (spread_maturity_dates mk) maturity_date = Inr i" "i < length (spread_data mk)"
    and "\<forall>p \<in> set (spread_maturity_dates mk).
           p < maturity_date \<longrightarrow> (\<exists>x. map_of prev_h p = Some (Some x))"
    and "payment_dates = standard_cds_payment_dates \<or> payment_dates = nonstandard_cds_payment_dates"
  shows "d_standard_cds_mtm_value mk (Some h_i) maturity_date prev_h payment_dates R
      = Inr ((1 - R) * 50
               * protection_leg (diff_Q_h_value mk (Some h_i) prev_h) (year_fraction mk maturity_date)
             - 0.5 * snd (spread_data mk ! i)
               * premium_leg mk (diff_Q_h_value mk (Some h_i) prev_h)
                   (payment_schedule mk payment_dates maturity_date))
    \<and> (\<forall>t. 0 \<le> t \<and> t \<le> year_fraction mk maturity_date \<longrightarrow>
           diff_Q_h mk t (Some h_i) prev_h = Inr (diff_Q_h_value mk (Some h_i) prev_h t))
    \<and> (\<exists>F D. (\<forall>x. standard_cds_mtm_value mk (Some x) maturity_date prev_h payment_dates R = Inr (F x))
           \<and> d_standard_cds_mtm_value mk (Some h_i) maturity_date prev_h payment_dates R = Inr D
           \<and> (F has_real_derivative D) (at h_i))"
proof (intro conjI)
  let ?T = "year_fraction mk maturity_date" and ?eff = "effective_date mk"
  let ?sp = "snd (spread_data mk ! i)"
  let ?sched = "payment_schedule mk payment_dates maturity_date"
  let ?F = "\<lambda>x. (1 - R) * 50 * protection_leg (Q_h_value mk (Some x) prev_h) ?T
      - 0.5 * ?sp * premium_leg mk (Q_h_value mk (Some x) prev_h) ?sched"
  let ?D = "(1 - R) * 50 * protection_leg (diff_Q_h_value mk (Some h_i) prev_h) ?T
      - 0.5 * ?sp * premium_leg mk (diff_Q_h_value mk (Some h_i) prev_h) ?sched"
  show d: "d_standard_cds_mtm_value mk (Some h_i) maturity_date prev_h payment_dates R = Inr ?D"
    by (rule d_standard_value [OF assms])
  have ret: "\<exists>q. Q_h mk t (Some h_i) prev_h = Inr q" if "0 \<le> t" "t \<le> ?T" for t
    using that Q_h_returns [OF assms(1,2,7), of t h_i] by (simp add: year_fraction_def)
  show "\<forall>t. 0 \<le> t \<and> t \<le> ?T \<longrightarrow>
      diff_Q_h mk t (Some h_i) prev_h = Inr (diff_Q_h_value mk (Some h_i) prev_h t)"
  proof (intro allI impI)
    fix t assume "0 \<le> t \<and> t \<le> ?T"
    with ret [of t] diff_Q_h_returns [of mk t "Some h_i" prev_h]
    obtain dq where "diff_Q_h mk t (Some h_i) prev_h = Inr dq" by blast
    then show "diff_Q_h mk t (Some h_i) prev_h = Inr (diff_Q_h_value mk (Some h_i) prev_h t)"
      by (simp add: diff_Q_h_value_def)
  qed
  have dv: "((\<lambda>x. Q_h_value mk (Some x) prev_h t) has_real_derivative
      diff_Q_h_value mk (Some h_i) prev_h t) (at h_i)" if "0 \<le> t" "t \<le> ?T" for t
    using ret [OF that] Q_h_value_deriv by blast
  have prot: "((\<lambda>x. protection_leg (Q_h_value mk (Some x) prev_h) ?T) has_real_derivative
      protection_leg (diff_Q_h_value mk (Some h_i) prev_h) ?T) (at h_i)"
  proof (rule protection_leg_deriv)
    fix k assume "k \<le> nat (K ?T 12)" "0 < nat (K ?T 12)"
    from subinterval_in_range [OF this]
    show "((\<lambda>x. Q_h_value mk (Some x) prev_h (s (real k) ?T 12)) has_real_derivative
      diff_Q_h_value mk (Some h_i) prev_h (s (real k) ?T 12)) (at h_i)"
      by (intro dv) simp_all
  qed
  have dates: "valid_date a \<and> valid_date b \<and> ?eff \<le> a \<and> ?eff \<le> b
      \<and> a \<le> maturity_date \<and> b \<le> maturity_date" if "(a, b) \<in> set ?sched" for a b
  proof (cases "next_payment_date ?eff payment_dates")
    case (Inl e)
    with that show ?thesis by (simp add: payment_schedule_def)
  next
    case (Inr first)
    from next_payment_date_later [OF Inr] have "?eff < first" "valid_date first" by simp_all
    with that Inr assms(1) show ?thesis
      by (intro payment_periods_dates [of a b payment_dates maturity_date ?eff first])
        (simp_all add: payment_schedule_def)
  qed
  have prem: "((\<lambda>x. premium_leg mk (Q_h_value mk (Some x) prev_h) ?sched) has_real_derivative
      premium_leg mk (diff_Q_h_value mk (Some h_i) prev_h) ?sched) (at h_i)"
  proof (rule premium_leg_deriv, intro conjI)
    fix a b assume ab: "(a, b) \<in> set ?sched"
    from dates [OF ab] year_fraction_in_range [OF assms(1,2), of a]
    show "((\<lambda>x. Q_h_value mk (Some x) prev_h (year_fraction mk a)) has_real_derivative
      diff_Q_h_value mk (Some h_i) prev_h (year_fraction mk a)) (at h_i)"
      by (intro dv) simp_all
    from dates [OF ab] year_fraction_in_range [OF assms(1,2), of b]
    show "((\<lambda>x. Q_h_value mk (Some x) prev_h (year_fraction mk b)) has_real_derivative
      diff_Q_h_value mk (Some h_i) prev_h (year_fraction mk b)) (at h_i)"
      by (intro dv) simp_all
  qed
  have der: "(?F has_real_derivative ?D) (at h_i)"
    by (intro DERIV_diff DERIV_cmult prot prem)
  have val: "\<forall>x. standard_cds_mtm_value mk (Some x) maturity_date prev_h payment_dates R = Inr (?F x)"
    using standard_value [OF assms] by blast
  show "\<exists>F D. (\<forall>x. standard_cds_mtm_value mk (Some x) maturity_date prev_h payment_dates R = Inr (F x))
           \<and> d_standard_cds_mtm_value mk (Some h_i) maturity_date prev_h payment_dates R = Inr D
           \<and> (F has_real_derivative D) (at h_i)"
    by (rule exI [of _ ?F], rule exI [of _ ?D]) (intro conjI val d der)
qed

theorem d_standard_cds_mtm_value_is_derivative_witness:
  "d_standard_cds_mtm_value notebook_market (Some (1 / 100)) (Date 2014 9 22) []
       standard_cds_payment_dates (45 / 100)
     = Inr ((1 - 45 / 100) * 50
              * protection_leg (diff_Q_h_value notebook_market (Some (1 / 100)) [])
                  (year_fraction notebook_market (Date 2014 9 22))
            - 0.5 * 103.07
              * premium_leg notebook_market (diff_Q_h_value notebook_market (Some (1 / 100)) [])
                  [(Date 2014 3 1, Date 2014 3 20), (Date 2014 3 20, Date 2014 6 20),
                   (Date 2014 6 20, Date 2014 9 22)])
   \<and> year_fraction notebook_market (Date 2014 9 22) = 205 / 360
   \<and> diff_Q_h notebook_market (1 / 2) (Some (1 / 100)) []
       = Inr (diff_Q_h_value notebook_market (Some (1 / 100)) [] (1 / 2))
   \<and> (\<exists>F D. standard_cds_mtm_value notebook_market (Some (1 / 100)) (Date 2014 9 22) []
                 standard_cds_payment_dates (45 / 100) = Inr (F (1 / 100))
           \<and> d_standard_cds_mtm_value notebook_market (Some (1 / 100)) (Date 2014 9 22) []
                 standard_cds_payment_dates (45 / 100) = Inr D
           \<and> (F has_real_derivative D) (at (1 / 100)))"
proof -
  have y: "year_fraction notebook_market (Date 2014 9 22) = 205 / 360"
    by (simp add: year_fraction_def notebook_market_def calendar_eval)
  have h: "valid_date (effective_date notebook_market)" "valid_date (Date 2014 9 22)"
    "effective_date notebook_market \<le> Date 2014 9 22" "year (Date 2014 9 22) < 9999"
    "list_index (spread_maturity_dates notebook_market) (Date 2014 9 22) = Inr 0"
    "0 < length (spread_data notebook_market)"
    "\<forall>p \<in> set (spread_maturity_dates notebook_market).
       p < Date 2014 9 22 \<longrightarrow> (\<exists>x. map_of [] p = Some (Some x))"
    by (simp_all add: notebook_market_def calendar_eval)
  note t = d_standard_cds_mtm_value_is_derivative
    [OF h, of standard_cds_payment_dates "1 / 100" "45 / 100"]
  from t have 1: "d_standard_cds_mtm_value notebook_market (Some (1 / 100)) (Date 2014 9 22) []
       standard_cds_payment_dates (45 / 100)
     = Inr ((1 - 45 / 100) * 50
              * protection_leg (diff_Q_h_value notebook_market (Some (1 / 100)) [])
                  (year_fraction notebook_market (Date 2014 9 22))
            - 0.5 * 103.07
              * premium_leg notebook_market (diff_Q_h_value notebook_market (Some (1 / 100)) [])
                  [(Date 2014 3 1, Date 2014 3 20), (Date 2014 3 20, Date 2014 6 20),
                   (Date 2014 6 20, Date 2014 9 22)])"
    by (simp add: notebook_schedule) (simp add: notebook_market_def)
  from t have 2: "diff_Q_h notebook_market (1 / 2) (Some (1 / 100)) []
       = Inr (diff_Q_h_value notebook_market (Some (1 / 100)) [] (1 / 2))"
    by (simp add: y)
  from t obtain F D where
    "\<forall>x. standard_cds_mtm_value notebook_market (Some x) (Date 2014 9 22) []
         standard_cds_payment_dates (45 / 100) = Inr (F x)"
    "d_standard_cds_mtm_value notebook_market (Some (1 / 100)) (Date 2014 9 22) []
         standard_cds_payment_dates (45 / 100) = Inr D"
    "(F has_real_derivative D) (at (1 / 100))"
    by blast
  then have 3: "\<exists>F D. standard_cds_mtm_value notebook_market (Some (1 / 100)) (Date 2014 9 22) []
                 standard_cds_payment_dates (45 / 100) = Inr (F (1 / 100))
           \<and> d_standard_cds_mtm_value notebook_market (Some (1 / 100)) (Date 2014 9 22) []
                 standard_cds_payment_dates (45 / 100) = Inr D
           \<and> (F has_real_derivative D) (at (1 / 100))"
    by (intro exI [of _ F] exI [of _ D]) simp
  from 1 y 2 3 show ?thesis by blast
qed

section \<open>Properties of the root finder\<close>

text \<open>
  The iterates of the run: \<open>newton_iterate ... n x\<close> is the point reached from
  \<open>x\<close> after \<open>n\<close> Newton steps, each taken from a point where the value is above
  the tolerance and the derivative is above the floor; \<open>None\<close> when the run does not
  make \<open>n\<close> steps.
\<close>

fun newton_iterate ::
  "(real \<Rightarrow> date \<Rightarrow> hazard_map \<Rightarrow> py_error + real) \<Rightarrow>
   (real \<Rightarrow> date \<Rightarrow> hazard_map \<Rightarrow> py_error + real) \<Rightarrow>
   date \<Rightarrow> hazard_map \<Rightarrow> real \<Rightarrow> nat \<Rightarrow> real \<Rightarrow> real option" where
  "newton_iterate f d_f maturity_date prev_h eps 0 x = Some x"
| "newton_iterate f d_f maturity_date prev_h eps (Suc n) x =
     (case f x maturity_date prev_h of
        Inl e \<Rightarrow> None
      | Inr val \<Rightarrow>
          if \<bar>val\<bar> > eps
          then (case d_f x maturity_date prev_h of
                  Inl e \<Rightarrow> None
                | Inr diff \<Rightarrow>
                    if \<bar>diff\<bar> > sqrt float_eps
                    then newton_iterate f d_f maturity_date prev_h eps n (x - val / diff)
                    else None)
          else None)"

text \<open>The loop is stalled at a point: value above the tolerance, derivative at or below the floor.\<close>

definition stalled ::
  "(real \<Rightarrow> date \<Rightarrow> hazard_map \<Rightarrow> py_error + real) \<Rightarrow>
   (real \<Rightarrow> date \<Rightarrow> hazard_map \<Rightarrow> py_error + real) \<Rightarrow>
   date \<Rightarrow> hazard_map \<Rightarrow> real \<Rightarrow> real \<Rightarrow> bool" where
  "stalled f d_f maturity_date prev_h eps x =
     (case f x maturity_date prev_h of
        Inl e \<Rightarrow> False
      | Inr val \<Rightarrow>
          \<bar>val\<bar> > eps \<and>
          (case d_f x maturity_date prev_h of Inl e \<Rightarrow> False | Inr diff \<Rightarrow> \<bar>diff\<bar> \<le> sqrt float_eps))"

lemmas newton_loop_induct =
  newton_loop.raw_induct [where xa = "((((((f, d_f), m), p), eps), x), val)", unfolded prod.case,
    rotated, consumes 1] for f d_f m p eps x val

lemma stalled_iff:
  "stalled f d_f m p eps y \<longleftrightarrow>
     (\<exists>v d. f y m p = Inr v \<and> eps < \<bar>v\<bar> \<and> d_f y m p = Inr d \<and> \<bar>d\<bar> \<le> sqrt float_eps)"
  by (auto simp: stalled_def split: sum.splits)

lemma float_div_above_floor: "sqrt float_eps < \<bar>diff\<bar> \<Longrightarrow> float_div val diff = Inr (val / diff)"
proof -
  assume a: "sqrt float_eps < \<bar>diff\<bar>"
  have "0 \<le> sqrt float_eps" by (simp add: float_eps_def)
  with a have "diff \<noteq> 0" by auto
  then show ?thesis by (simp add: float_div_def)
qed

lemma newton_loop_partial:
  assumes "newton_loop f d_f m p eps x val = Some res"
  shows "f x m p = Inr val \<Longrightarrow>
    (res = Inr None \<longrightarrow> (\<exists>n y. newton_iterate f d_f m p eps n x = Some y \<and> stalled f d_f m p eps y))
    \<and> (\<forall>root. res = Inr (Some root) \<longrightarrow>
          (\<exists>n v. newton_iterate f d_f m p eps n x = Some root \<and> f root m p = Inr v \<and> \<bar>v\<bar> \<le> eps))
    \<and> ((\<forall>y. f y m p \<noteq> Inl FloatingPointError \<and> d_f y m p \<noteq> Inl FloatingPointError)
          \<longrightarrow> res \<noteq> Inl FloatingPointError)"
  using assms
proof (induction f d_f m p eps x val res rule: newton_loop_induct)
  case (1 loop f d_f m p eps x val res)
  note ih0 = 1(1) and body = 1(2) and fx = 1(3)
  show ?case
  proof (cases "eps < \<bar>val\<bar>")
    case False
    with body have res: "res = Inr (Some x)" by simp
    have "newton_iterate f d_f m p eps 0 x = Some x" by simp
    with fx False show ?thesis unfolding res by (intro conjI allI impI) (auto intro!: exI [of _ 0])
  next
    case big: True
    show ?thesis
    proof (cases "d_f x m p")
      case (Inl e)
      with body big have "res = Inl e" by simp
      with Inl show ?thesis by auto
    next
      case (Inr diff)
      show ?thesis
      proof (cases "sqrt float_eps < \<bar>diff\<bar>")
        case False
        with body big Inr have res: "res = Inr None" by simp
        have "stalled f d_f m p eps x"
          using fx big Inr False by (simp add: stalled_def)
        moreover have "newton_iterate f d_f m p eps 0 x = Some x" by simp
        ultimately show ?thesis unfolding res by blast
      next
        case True
        note fd = float_div_above_floor [OF True, of val]
        show ?thesis
        proof (cases "f (x - val / diff) m p")
          case (Inl e)
          with body big Inr True fd have "res = Inl e" by simp
          with Inl show ?thesis by auto
        next
          case val': (Inr val')
          with body big Inr True fd have "loop f d_f m p eps (x - val / diff) val' = Some res"
            by simp
          from ih0 [OF this val']
          have ih: "res = Inr None \<longrightarrow>
              (\<exists>n y. newton_iterate f d_f m p eps n (x - val / diff) = Some y \<and> stalled f d_f m p eps y)"
            "\<forall>root. res = Inr (Some root) \<longrightarrow>
              (\<exists>n v. newton_iterate f d_f m p eps n (x - val / diff) = Some root
                 \<and> f root m p = Inr v \<and> \<bar>v\<bar> \<le> eps)"
            "(\<forall>y. f y m p \<noteq> Inl FloatingPointError \<and> d_f y m p \<noteq> Inl FloatingPointError)
              \<longrightarrow> res \<noteq> Inl FloatingPointError"
            by blast+
          have step: "newton_iterate f d_f m p eps (Suc n) x
              = newton_iterate f d_f m p eps n (x - val / diff)" for n
            using fx big Inr True by simp
          show ?thesis
          proof (intro conjI allI impI)
            assume "res = Inr None"
            with ih(1) obtain n y where "newton_iterate f d_f m p eps n (x - val / diff) = Some y"
              "stalled f d_f m p eps y" by blast
            with step [of n] show "\<exists>n y. newton_iterate f d_f m p eps n x = Some y \<and> stalled f d_f m p eps y"
              by metis
          next
            fix root assume "res = Inr (Some root)"
            with ih(2) obtain n v where "newton_iterate f d_f m p eps n (x - val / diff) = Some root"
              "f root m p = Inr v" "\<bar>v\<bar> \<le> eps" by blast
            with step [of n]
            show "\<exists>n v. newton_iterate f d_f m p eps n x = Some root \<and> f root m p = Inr v \<and> \<bar>v\<bar> \<le> eps"
              by metis
          next
            assume "\<forall>y. f y m p \<noteq> Inl FloatingPointError \<and> d_f y m p \<noteq> Inl FloatingPointError"
            with ih(3) show "res \<noteq> Inl FloatingPointError" by blast
          qed
        qed
      qed
    qed
  qed
qed

lemma newton_step:
  assumes "f x m p = Inr val" "eps < \<bar>val\<bar>" "d_f x m p = Inr diff" "sqrt float_eps < \<bar>diff\<bar>"
  shows "newton_raphson_method f d_f m p x eps = newton_raphson_method f d_f m p (x - val / diff) eps"
  using assms float_div_above_floor [OF assms(4), of val]
  by (simp add: newton_raphson_method_def newton_loop.simps [of f d_f m p eps x val])

lemma newton_stalled:
  "newton_iterate f d_f m p eps n x = Some y \<Longrightarrow> stalled f d_f m p eps y \<Longrightarrow>
   newton_raphson_method f d_f m p x eps = Some (Inr None)"
proof (induction n arbitrary: x)
  case 0
  then obtain v d where "f x m p = Inr v" "eps < \<bar>v\<bar>" "d_f x m p = Inr d" "\<bar>d\<bar> \<le> sqrt float_eps"
    by (auto simp: stalled_iff)
  then show ?case
    by (simp add: newton_raphson_method_def newton_loop.simps [of f d_f m p eps x v])
next
  case (Suc n)
  from Suc.prems(1) obtain val diff where s: "f x m p = Inr val" "eps < \<bar>val\<bar>"
    "d_f x m p = Inr diff" "sqrt float_eps < \<bar>diff\<bar>"
    "newton_iterate f d_f m p eps n (x - val / diff) = Some y"
    by (auto split: sum.splits if_splits)
  from Suc.IH [OF s(5) Suc.prems(2)]
    newton_step [where f = f and d_f = d_f and m = m and p = p and x = x, OF s(1-4)]
  show ?case by simp
qed

lemma newton_passes_iterates:
  "newton_iterate f d_f m p eps n x = Some y \<Longrightarrow>
   newton_raphson_method f d_f m p x eps = newton_raphson_method f d_f m p y eps"
proof (induction n arbitrary: x)
  case 0
  then show ?case by simp
next
  case (Suc n)
  from Suc.prems(1) obtain val diff where s: "f x m p = Inr val" "eps < \<bar>val\<bar>"
    "d_f x m p = Inr diff" "sqrt float_eps < \<bar>diff\<bar>"
    "newton_iterate f d_f m p eps n (x - val / diff) = Some y"
    by (auto split: sum.splits if_splits)
  from Suc.IH [OF s(5)]
    newton_step [where f = f and d_f = d_f and m = m and p = p and x = x, OF s(1-4)]
  show ?case by simp
qed

lemma newton_iterate_step:
  "newton_iterate f d_f m p eps n x = Some y \<Longrightarrow>
   newton_iterate f d_f m p eps (Suc n) x = Some y' \<Longrightarrow>
   \<exists>v d. f y m p = Inr v \<and> d_f y m p = Inr d \<and> sqrt float_eps < \<bar>d\<bar> \<and> y' = y - v / d"
proof (induction n arbitrary: x)
  case 0
  then show ?case by (auto split: sum.splits if_splits)
next
  case (Suc n)
  from Suc.prems(1) obtain val diff where s: "f x m p = Inr val" "eps < \<bar>val\<bar>"
    "d_f x m p = Inr diff" "sqrt float_eps < \<bar>diff\<bar>"
    "newton_iterate f d_f m p eps n (x - val / diff) = Some y"
    by (auto split: sum.splits if_splits)
  have "newton_iterate f d_f m p eps (Suc (Suc n)) x
      = newton_iterate f d_f m p eps (Suc n) (x - val / diff)"
    using s(1-4) by (simp only: newton_iterate.simps(2) [of f d_f m p eps "Suc n" x]) simp
  with Suc.prems(2) have "newton_iterate f d_f m p eps (Suc n) (x - val / diff) = Some y'"
    by simp
  from Suc.IH [OF s(5) this] show ?case .
qed

text \<open>
  C4. \<open>newton_raphson_method\<close> returns a value \<open>x\<close> only if
  \<open>|f(x, maturity_date, prev_h)| \<le> eps\<close>. It returns \<open>None\<close> exactly when some iterate
  of the run has a value above \<open>eps\<close> and a derivative of magnitude at or below the
  square root of the machine epsilon. The run passes through its iterates, every step
  from one iterate to the next divides by a derivative above that floor, and the
  division never raises: FloatingPointError can only come from \<open>f\<close> or \<open>d_f\<close>.
\<close>

theorem newton_raphson_method_outcomes:
  "(\<forall>root. newton_raphson_method f d_f m p x0 eps = Some (Inr (Some root)) \<longrightarrow>
       (\<exists>v. f root m p = Inr v \<and> \<bar>v\<bar> \<le> eps))
   \<and> (newton_raphson_method f d_f m p x0 eps = Some (Inr None) \<longleftrightarrow>
       (\<exists>n y v d. newton_iterate f d_f m p eps n x0 = Some y \<and> f y m p = Inr v \<and> eps < \<bar>v\<bar>
          \<and> d_f y m p = Inr d \<and> \<bar>d\<bar> \<le> sqrt float_eps))
   \<and> (\<forall>n y y'. newton_iterate f d_f m p eps n x0 = Some y
          \<and> newton_iterate f d_f m p eps (Suc n) x0 = Some y' \<longrightarrow>
       newton_raphson_method f d_f m p x0 eps = newton_raphson_method f d_f m p y eps
       \<and> (\<exists>v d. f y m p = Inr v \<and> d_f y m p = Inr d \<and> sqrt float_eps < \<bar>d\<bar> \<and> y' = y - v / d))
   \<and> ((\<forall>y. f y m p \<noteq> Inl FloatingPointError \<and> d_f y m p \<noteq> Inl FloatingPointError) \<longrightarrow>
       newton_raphson_method f d_f m p x0 eps \<noteq> Some (Inl FloatingPointError))"
proof -
  have steps: "\<forall>n y y'. newton_iterate f d_f m p eps n x0 = Some y
          \<and> newton_iterate f d_f m p eps (Suc n) x0 = Some y' \<longrightarrow>
       newton_raphson_method f d_f m p x0 eps = newton_raphson_method f d_f m p y eps
       \<and> (\<exists>v d. f y m p = Inr v \<and> d_f y m p = Inr d \<and> sqrt float_eps < \<bar>d\<bar> \<and> y' = y - v / d)"
    using newton_passes_iterates [of f d_f m p eps _ x0] newton_iterate_step [of f d_f m p eps _ x0]
    by blast
  have rest: "(\<forall>root. newton_raphson_method f d_f m p x0 eps = Some (Inr (Some root)) \<longrightarrow>
       (\<exists>v. f root m p = Inr v \<and> \<bar>v\<bar> \<le> eps))
   \<and> (newton_raphson_method f d_f m p x0 eps = Some (Inr None) \<longleftrightarrow>
       (\<exists>n y v d. newton_iterate f d_f m p eps n x0 = Some y \<and> f y m p = Inr v \<and> eps < \<bar>v\<bar>
          \<and> d_f y m p = Inr d \<and> \<bar>d\<bar> \<le> sqrt float_eps))
   \<and> ((\<forall>y. f y m p \<noteq> Inl FloatingPointError \<and> d_f y m p \<noteq> Inl FloatingPointError) \<longrightarrow>
       newton_raphson_method f d_f m p x0 eps \<noteq> Some (Inl FloatingPointError))"
  proof (cases "f x0 m p")
  case (Inl e)
  then have r: "newton_raphson_method f d_f m p x0 eps = Some (Inl e)"
    by (simp add: newton_raphson_method_def)
  have "\<not> stalled f d_f m p eps y" if "newton_iterate f d_f m p eps n x0 = Some y" for n y
    using that Inl by (cases n) (auto simp: stalled_def)
  then have "\<not> (\<exists>n y v d. newton_iterate f d_f m p eps n x0 = Some y \<and> f y m p = Inr v \<and> eps < \<bar>v\<bar>
          \<and> d_f y m p = Inr d \<and> \<bar>d\<bar> \<le> sqrt float_eps)"
    by (auto simp: stalled_iff)
  with r Inl show ?thesis by auto
  next
  case (Inr val)
  then have r: "newton_raphson_method f d_f m p x0 eps = newton_loop f d_f m p eps x0 val"
    by (simp add: newton_raphson_method_def)
  note part = newton_loop_partial [of f d_f m p eps x0 val, OF _ Inr]
  show ?thesis
  proof (intro conjI allI impI iffI)
    fix root assume "newton_raphson_method f d_f m p x0 eps = Some (Inr (Some root))"
    with r part [of "Inr (Some root)"] show "\<exists>v. f root m p = Inr v \<and> \<bar>v\<bar> \<le> eps" by auto
  next
    assume "newton_raphson_method f d_f m p x0 eps = Some (Inr None)"
    with r part [of "Inr None"]
    show "\<exists>n y v d. newton_iterate f d_f m p eps n x0 = Some y \<and> f y m p = Inr v \<and> eps < \<bar>v\<bar>
          \<and> d_f y m p = Inr d \<and> \<bar>d\<bar> \<le> sqrt float_eps"
      by (simp add: stalled_iff)
  next
    assume "\<exists>n y v d. newton_iterate f d_f m p eps n x0 = Some y \<and> f y m p = Inr v \<and> eps < \<bar>v\<bar>
          \<and> d_f y m p = Inr d \<and> \<bar>d\<bar> \<le> sqrt float_eps"
    then obtain n y where "newton_iterate f d_f m p eps n x0 = Some y" "stalled f d_f m p eps y"
      by (auto simp: stalled_iff)
    then show "newton_raphson_method f d_f m p x0 eps = Some (Inr None)"
      by (rule newton_stalled)
  next
    assume a: "\<forall>y. f y m p \<noteq> Inl FloatingPointError \<and> d_f y m p \<noteq> Inl FloatingPointError"
    show "newton_raphson_method f d_f m p x0 eps \<noteq> Some (Inl FloatingPointError)"
    proof
      assume "newton_raphson_method f d_f m p x0 eps = Some (Inl FloatingPointError)"
      with r part [of "Inl FloatingPointError"] a show False by auto
    qed
  qed
  qed
  from steps rest show ?thesis by blast
qed


lemma sqrt_float_eps: "sqrt float_eps = 1 / 2 ^ 26"
proof (rule real_sqrt_unique)
  show "(1 / 2 ^ 26 :: real)\<^sup>2 = float_eps" by (simp add: float_eps_def power2_eq_square)
  show "0 \<le> (1 / 2 ^ 26 :: real)" by simp
qed

theorem newton_raphson_method_outcomes_witness:
  "newton_raphson_method (\<lambda>x m p. Inr (2 * x - 1)) (\<lambda>x m p. Inr 2) (Date 2014 9 22) []
      (1 / 100) (1 / 10 ^ 6) = Some (Inr (Some (1 / 2)))
   \<and> (\<exists>v. (Inr (2 * (1 / 2) - 1) :: py_error + real) = Inr v \<and> \<bar>v\<bar> \<le> 1 / 10 ^ 6)
   \<and> newton_iterate (\<lambda>x m p. Inr 1) (\<lambda>x m p. Inr 0) (Date 2014 9 22) [] (1 / 10 ^ 6) 0 (1 / 100)
       = Some (1 / 100)
   \<and> newton_raphson_method (\<lambda>x m p. Inr 1) (\<lambda>x m p. Inr 0) (Date 2014 9 22) []
      (1 / 100) (1 / 10 ^ 6) = Some (Inr None)
   \<and> newton_raphson_method (\<lambda>x m p. Inr (2 * x - 1)) (\<lambda>x m p. Inr 2) (Date 2014 9 22) []
      (1 / 100) (1 / 10 ^ 6) \<noteq> Some (Inl FloatingPointError)
   \<and> newton_iterate (\<lambda>x m p. Inr (2 * x - 1)) (\<lambda>x m p. Inr 2) (Date 2014 9 22) [] (1 / 10 ^ 6)
       (Suc 0) (1 / 100) = Some (1 / 2)
   \<and> (\<exists>v d. (Inr (2 * (1 / 100) - 1) :: py_error + real) = Inr v \<and> (Inr 2 :: py_error + real) = Inr d
        \<and> sqrt float_eps < \<bar>d\<bar> \<and> 1 / 2 = 1 / 100 - v / d)"
proof -
  let ?f = "\<lambda>(x::real) (m::date) (p::hazard_map). (Inr (2 * x - 1) :: py_error + real)"
  let ?d = "\<lambda>(x::real) (m::date) (p::hazard_map). (Inr 2 :: py_error + real)"
  let ?g = "\<lambda>(x::real) (m::date) (p::hazard_map). (Inr 1 :: py_error + real)"
  let ?z = "\<lambda>(x::real) (m::date) (p::hazard_map). (Inr 0 :: py_error + real)"
  have 1: "newton_raphson_method ?f ?d (Date 2014 9 22) [] (1 / 100) (1 / 10 ^ 6)
      = Some (Inr (Some (1 / 2)))"
    by (simp add: newton_raphson_method_def newton_loop.simps sqrt_float_eps float_div_def)
  note t = newton_raphson_method_outcomes [of ?f ?d "Date 2014 9 22" "[]" "1 / 100" "1 / 10 ^ 6"]
  from t 1 have 2: "\<exists>v. (Inr (2 * (1 / 2) - 1) :: py_error + real) = Inr v \<and> \<bar>v\<bar> \<le> 1 / 10 ^ 6"
    by blast
  have 3: "newton_iterate ?g ?z (Date 2014 9 22) [] (1 / 10 ^ 6) 0 (1 / 100) = Some (1 / 100)"
    by simp
  have "\<exists>n y v d. newton_iterate ?g ?z (Date 2014 9 22) [] (1 / 10 ^ 6) n (1 / 100) = Some y
      \<and> ?g y (Date 2014 9 22) [] = Inr v \<and> 1 / 10 ^ 6 < \<bar>v\<bar>
      \<and> ?z y (Date 2014 9 22) [] = Inr d \<and> \<bar>d\<bar> \<le> sqrt float_eps"
    by (rule exI [of _ 0], rule exI [of _ "1 / 100"], rule exI [of _ 1], rule exI [of _ 0])
      (simp add: sqrt_float_eps)
  with newton_raphson_method_outcomes [of ?g ?z "Date 2014 9 22" "[]" "1 / 100" "1 / 10 ^ 6"]
  have 4: "newton_raphson_method ?g ?z (Date 2014 9 22) [] (1 / 100) (1 / 10 ^ 6) = Some (Inr None)"
    by blast
  have "\<forall>y. ?f y (Date 2014 9 22) [] \<noteq> Inl FloatingPointError
      \<and> ?d y (Date 2014 9 22) [] \<noteq> Inl FloatingPointError"
    by simp
  with t have 5: "newton_raphson_method ?f ?d (Date 2014 9 22) [] (1 / 100) (1 / 10 ^ 6)
      \<noteq> Some (Inl FloatingPointError)"
    by blast
  have 6: "newton_iterate ?f ?d (Date 2014 9 22) [] (1 / 10 ^ 6) 0 (1 / 100) = Some (1 / 100)"
    "newton_iterate ?f ?d (Date 2014 9 22) [] (1 / 10 ^ 6) (Suc 0) (1 / 100) = Some (1 / 2)"
    by (simp_all add: sqrt_float_eps)
  with t have 7: "\<exists>v d. (Inr (2 * (1 / 100) - 1) :: py_error + real) = Inr v
      \<and> (Inr 2 :: py_error + real) = Inr d \<and> sqrt float_eps < \<bar>d\<bar> \<and> 1 / 2 = 1 / 100 - v / d"
    by blast
  from 1 2 3 4 5 6(2) 7 show ?thesis by blast
qed

section \<open>Properties of the calibration loop\<close>


subsection \<open>Three small markets\<close>

























subsection \<open>A market that calibrates at once\<close>

















subsection \<open>A failed pillar and the pillars after it\<close>














section \<open>Properties of the query\<close>

lemma Q_h_scan_beyond:
  "\<forall>p \<in> set ps. p < e \<Longrightarrow> \<forall>p \<in> set ps. p < e' \<Longrightarrow>
   Q_h_scan prev h e st ps acc = Q_h_scan prev h' e' st ps acc"
  by (induction ps arbitrary: st acc) (auto split: sum.splits)

lemma py_int_of_int: "py_int (real_of_int n) = n"
  by (simp add: py_int_def)

lemma add_days_back:
  "valid_date d \<Longrightarrow> add_days e (py_int (real_of_int (days_between d e))) = Inr d"
  by (simp only: py_int_of_int) (rule add_days_eq, simp_all add: days_between_def)

lemma Q_scan_beyond:
  "\<forall>p \<in> set ps. p < dat \<Longrightarrow>
   Q_scan mk hv t dat ps = (case py_last (map snd hv) of Inl e \<Rightarrow> Inl e | Inr h \<Rightarrow> Q_h mk t h hv)"
  by (induction ps) (auto simp: not_le)

text \<open>
  C3. Beyond the last pillar \<open>Q\<close> is to extrapolate the last calibrated rate, so
  that survival keeps decaying at that rate. \<open>Q\<close> does pass the last rate to
  \<open>Q_h\<close> (its comment: return the last h value), but the scan of \<open>Q_h\<close> uses the
  candidate rate only at a pillar at or after the end date, and past the last pillar
  there is none: the stretch from the last pillar to the query date is never added.
  What the code computes is therefore the same for any two dates past the last pillar.
\<close>

theorem Q_constant_beyond_last_pillar:
  assumes "valid_date d1" "valid_date d2"
    and "\<forall>p \<in> set (spread_maturity_dates mk). p < d1 \<and> p < d2"
    and "effective_date mk \<le> d1" "effective_date mk \<le> d2"
  shows "Q mk h_values d1 = Q mk h_values d2"
proof -
  let ?t1 = "real_of_int (days_between d1 (effective_date mk)) / 360"
  let ?t2 = "real_of_int (days_between d2 (effective_date mk)) / 360"
  have s: "Q_h_scan h_values h d1 (effective_date mk) (spread_maturity_dates mk) 0
      = Q_h_scan h_values h d2 (effective_date mk) (spread_maturity_dates mk) 0" for h
    using assms(3) by (intro Q_h_scan_beyond) auto
  have "Q_h mk ?t1 h h_values = Q_h mk ?t2 h h_values" for h
    by (simp add: Q_h_def add_days_back [OF assms(1)] add_days_back [OF assms(2)] s)
  moreover have "Q mk h_values d1
      = (case py_last (map snd h_values) of Inl e \<Rightarrow> Inl e | Inr h \<Rightarrow> Q_h mk ?t1 h h_values)"
    using assms(3,4) by (simp add: Q_def Let_def not_less [symmetric] Q_scan_beyond)
  moreover have "Q mk h_values d2
      = (case py_last (map snd h_values) of Inl e \<Rightarrow> Inl e | Inr h \<Rightarrow> Q_h mk ?t2 h h_values)"
    using assms(3,5) by (simp add: Q_def Let_def not_less [symmetric] Q_scan_beyond)
  ultimately show ?thesis by (simp split: sum.splits)
qed

theorem Q_constant_beyond_last_pillar_witness:
  "Q notebook_market notebook_h_values (Date 2045 3 21)
     = Q notebook_market notebook_h_values (Date 2044 3 21)
   \<and> Q notebook_market notebook_h_values (Date 2054 3 21)
     = Q notebook_market notebook_h_values (Date 2045 3 21)
   \<and> (\<exists>v. Q notebook_market notebook_h_values (Date 2045 3 21) = Inr v \<and> 0 < v)"
proof -
  have v: "valid_date (Date 2045 3 21)" "valid_date (Date 2054 3 21)"
    by (simp_all add: calendar_eval)
  have b: "\<forall>p \<in> set (spread_maturity_dates notebook_market). p < Date 2045 3 21 \<and> p < Date 2054 3 21"
    "effective_date notebook_market \<le> Date 2045 3 21" "effective_date notebook_market \<le> Date 2054 3 21"
    by (simp_all add: notebook_market_def calendar_eval)
  have a0: "add_days (Date 2014 3 1) 10978 = Inr (Date 2044 3 21)"
    by (rule add_days_eq) (simp_all add: calendar_eval)
  have a1: "add_days (Date 2014 3 1) 11343 = Inr (Date 2045 3 21)"
    by (rule add_days_eq) (simp_all add: calendar_eval)
  let ?H = "1.906293407117043 * (205 / 360) + 1.953364459804524 * (179 / 360)
    + 2.0157485147215066 * (367 / 360) + 2.129561259497372 * (364 / 360)
    + 2.2270680733742383 * (365 / 360) + 2.3402157994365926 * (365 / 360)
    + 2.7012830118133793 * (733 / 360) + 3.1345861935068893 * (1094 / 360)
    + 3.5864503288466683 * (3652 / 360) + 3.717295971213892 * (3654 / 360) :: real"
  have 0: "Q notebook_market notebook_h_values (Date 2044 3 21) = Inr (exp (- ?H))"
    by (simp add: Q_def Q_h_def Let_def notebook_market_def notebook_h_values_def py_int_def a0
        py_float_def py_last_def dict_get_def calendar_eval)
  have 1: "Q notebook_market notebook_h_values (Date 2045 3 21) = Inr (exp (- ?H))"
    by (simp add: Q_def Q_h_def Let_def notebook_market_def notebook_h_values_def py_int_def a1
        py_float_def py_last_def dict_get_def calendar_eval)
  from Q_constant_beyond_last_pillar [OF v(2,1), of notebook_market notebook_h_values] b
  have 2: "Q notebook_market notebook_h_values (Date 2054 3 21)
     = Q notebook_market notebook_h_values (Date 2045 3 21)"
    by simp
  from 0 1 2 show ?thesis by simp
qed

text \<open>
  C10. For every date strictly before the effective date, \<open>Q\<close> returns exactly 0,
  whatever the hazard map holds: it neither fails nor returns 1.
\<close>

theorem Q_before_effective_date:
  "dat < effective_date mk \<Longrightarrow> Q mk h_values dat = Inr 0"
  by (simp add: Q_def)

theorem Q_before_effective_date_witness:
  "Date 2014 2 28 < effective_date notebook_market
   \<and> Q notebook_market [] (Date 2014 2 28) = Inr 0"
proof -
  have h: "Date 2014 2 28 < effective_date notebook_market"
    by (simp add: notebook_market_def less_date_def)
  from Q_before_effective_date [OF h] h show ?thesis by simp
qed

end
